theory Spec2Isabelle
  imports Main
begin

section \<open>Go strings\<close>

text \<open>
  A Go string is a sequence of bytes; \<open>len\<close> counts bytes and slicing is by byte offset.
  It is modelled as a \<^typ>\<open>string\<close>, whose characters are the bytes. The regular
  expression engine and \<open>strings.ToLower\<close> read a string as UTF-8, one rune at a time,
  so the width of the rune at the front of a string is modelled too.
\<close>

definition byte :: "char \<Rightarrow> nat" where
  "byte c = of_char c"

text \<open>
  \<open>utf8.DecodeRuneInString\<close>, reduced to the width it returns: 1 for an ASCII byte and
  for every ill-formed or truncated sequence (the rune is then \<open>RuneError\<close>), 2 to 4 for a
  well-formed multi-byte sequence. The case distinction is the one of the library's table
  of first bytes and of its accept ranges for the second byte.
\<close>

definition cont :: "char \<Rightarrow> bool" where
  "cont c \<longleftrightarrow> 0x80 \<le> byte c \<and> byte c \<le> 0xBF"

definition rune_size :: "char \<Rightarrow> nat" where
  "rune_size c =
     (let b = byte c in
      if b < 0x80 then 1
      else if b < 0xC2 then 0
      else if b < 0xE0 then 2
      else if b < 0xF0 then 3
      else if b < 0xF5 then 4
      else 0)"

definition accept_lo :: "char \<Rightarrow> nat" where
  "accept_lo c = (if byte c = 0xE0 then 0xA0 else if byte c = 0xF0 then 0x90 else 0x80)"

definition accept_hi :: "char \<Rightarrow> nat" where
  "accept_hi c = (if byte c = 0xED then 0x9F else if byte c = 0xF4 then 0x8F else 0xBF)"

definition rune_len :: "string \<Rightarrow> nat" where
  "rune_len s =
     (case s of
        [] \<Rightarrow> 0
      | c # t \<Rightarrow>
          let sz = rune_size c in
          if sz < 2 then 1
          else if length s < sz then 1
          else if byte (t ! 0) < accept_lo c \<or> accept_hi c < byte (t ! 0) then 1
          else if sz = 2 then 2
          else if \<not> cont (t ! 1) then 1
          else if sz = 3 then 3
          else if \<not> cont (t ! 2) then 1
          else 4)"

text \<open>The character classes of the two patterns: \<open>\w\<close>, \<open>[\w-]\<close> and \<open>\s\<close> are ASCII
  classes in Go's syntax (\<open>\s\<close> is tab, line feed, form feed, carriage return, space).\<close>

definition is_word :: "char \<Rightarrow> bool" where
  "is_word c \<longleftrightarrow>
     (let b = byte c in
      (0x30 \<le> b \<and> b \<le> 0x39) \<or> (0x41 \<le> b \<and> b \<le> 0x5A) \<or> b = 0x5F \<or> (0x61 \<le> b \<and> b \<le> 0x7A))"

definition is_word_hyphen :: "char \<Rightarrow> bool" where
  "is_word_hyphen c \<longleftrightarrow> is_word c \<or> c = CHR ''-''"

definition is_space :: "char \<Rightarrow> bool" where
  "is_space c \<longleftrightarrow> byte c = 0x09 \<or> byte c = 0x0A \<or> byte c = 0x0C \<or> byte c = 0x0D \<or> byte c = 0x20"

abbreviation backslash :: char where "backslash \<equiv> CHR 0x5C"
abbreviation dquote :: char where "dquote \<equiv> CHR 0x22"
abbreviation squote :: char where "squote \<equiv> CHR 0x27"
abbreviation newline :: char where "newline \<equiv> CHR 0x0A"

text \<open>The non-ASCII literals of \<open>flagsRegex\<close>, as their UTF-8 bytes: the em dash U+2014,
  the double quotation marks U+201C and U+201D, the single ones U+2018 and U+2019.\<close>

definition em_dash :: string where "em_dash = [CHR 0xE2, CHR 0x80, CHR 0x94]"
definition ldquo :: string where "ldquo = [CHR 0xE2, CHR 0x80, CHR 0x9C]"
definition rdquo :: string where "rdquo = [CHR 0xE2, CHR 0x80, CHR 0x9D]"
definition lsquo :: string where "lsquo = [CHR 0xE2, CHR 0x80, CHR 0x98]"
definition rsquo :: string where "rsquo = [CHR 0xE2, CHR 0x80, CHR 0x99]"

text \<open>\<open>strings.HasPrefix\<close>.\<close>

definition HasPrefix :: "string \<Rightarrow> string \<Rightarrow> bool" where
  "HasPrefix s p \<longleftrightarrow> length p \<le> length s \<and> take (length p) s = p"

lemma rune_len_pos: "s \<noteq> [] \<Longrightarrow> 0 < rune_len s"
  by (cases s) (simp_all add: rune_len_def Let_def)

lemma rune_len_le: "rune_len s \<le> length s"
proof (cases s)
  case Nil
  then show ?thesis by (simp add: rune_len_def)
next
  case (Cons c t)
  have "rune_len (c # t) \<le> Suc (length t)"
    by (cases t) (auto simp: rune_len_def Let_def Suc_le_eq)
  with Cons show ?thesis by simp
qed


section \<open>The flag pattern\<close>

text \<open>
  \<open>flagsRegex\<close> (line 119) is

  \<^verbatim>\<open>(?:--|EM)(\w[\w-]+)(?:=(?:"((?:[^"\\]|\\.)*)"|'((?:[^'\\]|\\.)*)'|[LR]((?:[^LR\\]|\\.)*)[LR]|[lr]((?:[^lr\\]|\\.)*)[lr]|([\w-]+)))?\<close>

  where \<open>EM\<close> stands for the em dash, \<open>L\<close>, \<open>R\<close> for the left and right double
  quotation marks and \<open>l\<close>, \<open>r\<close> for the single ones. Go's \<open>regexp\<close> finds the
  leftmost match and, among the matches that start there, the one a backtracking search
  finds first: alternatives are tried in the order they are written, and a greedy
  repetition tries one more round before it tries to stop. The functions below are that
  search, written for this pattern, at the front of the input. Each returns what it
  captured and the input that is left, or \<open>None\<close> when its part of the pattern does not
  match.
\<close>

text \<open>A literal at the front of the input.\<close>

definition lit :: "string \<Rightarrow> string \<Rightarrow> string option" where
  "lit p s = (if HasPrefix s p then Some (drop (length p) s) else None)"

text \<open>A character class given by its members (\<open>["]\<close>, \<open>[LR]\<close>): the first member that
  stands at the front of the input.\<close>

fun one_of :: "string list \<Rightarrow> string \<Rightarrow> string option" where
  "one_of [] s = None"
| "one_of (q # qs) s = (case lit q s of Some r \<Rightarrow> Some r | None \<Rightarrow> one_of qs s)"

text \<open>\<open>(?:--|EM)\<close>\<close>

definition introducer :: "string \<Rightarrow> string option" where
  "introducer s = (case lit ''--'' s of Some r \<Rightarrow> Some r | None \<Rightarrow> lit em_dash s)"

text \<open>
  \<open>(\w[\w-]+)\<close>: one word character, then as many word characters and hyphens as there
  are, at least one. Whatever follows the name in the pattern is optional, so the search
  never has to give a character of the name back.
\<close>

definition flag_name :: "string \<Rightarrow> (string \<times> string) option" where
  "flag_name s =
     (case s of
        [] \<Rightarrow> None
      | c # t \<Rightarrow>
          if is_word c \<and> takeWhile is_word_hyphen t \<noteq> []
          then Some (c # takeWhile is_word_hyphen t, dropWhile is_word_hyphen t)
          else None)"

text \<open>
  \<open>((?:[^Q\\]|\\.)*)Q\<close> for a quote class \<open>Q\<close>, after the opening quote: the body that is
  captured and the input after the closing quote. A round of the repetition is tried
  first: a rune that is neither a quote of \<open>Q\<close> nor a backslash, else a backslash and a
  rune that is not a line feed (\<open>.\<close> does not match one). Where no round matches, or the
  rest of the pattern fails after it, the repetition stops and the closing quote must
  stand here.
\<close>

function quoted_body :: "string list \<Rightarrow> string \<Rightarrow> (string \<times> string) option" where
  "quoted_body qs s =
     (let round =
        (case s of
           [] \<Rightarrow> None
         | c # t \<Rightarrow>
             if c \<noteq> backslash \<and> one_of qs s = None
             then map_option (\<lambda>(b, r). (take (rune_len s) s @ b, r))
                    (quoted_body qs (drop (rune_len s) s))
             else if c = backslash \<and> t \<noteq> [] \<and> hd t \<noteq> newline
             then map_option (\<lambda>(b, r). (c # take (rune_len t) t @ b, r))
                    (quoted_body qs (drop (rune_len t) t))
             else None)
      in case round of
           Some m \<Rightarrow> Some m
         | None \<Rightarrow> map_option (\<lambda>r. ([], r)) (one_of qs s))"
  by pat_completeness auto
termination
proof (relation "measure (\<lambda>(qs, s). length s)")
  show "wf (measure (\<lambda>(qs, s). length s))" by simp
next
  fix qs :: "string list" and s :: string and c t
  assume "s = c # t"
  then have "s \<noteq> []" by simp
  then have "0 < rune_len s" by (rule rune_len_pos)
  with \<open>s = c # t\<close> show "((qs, drop (rune_len s) s), (qs, s)) \<in> measure (\<lambda>(qs, s). length s)"
    by simp
next
  fix qs :: "string list" and s :: string and c t
  assume "s = c # t"
  then show "((qs, drop (rune_len t) t), (qs, s)) \<in> measure (\<lambda>(qs, s). length s)"
    by simp
qed

declare quoted_body.simps [simp del]

text \<open>A quoted value: an opening quote of the class, the body, a closing quote.\<close>

definition quoted :: "string list \<Rightarrow> string \<Rightarrow> (string \<times> string) option" where
  "quoted qs s = (case one_of qs s of None \<Rightarrow> None | Some t \<Rightarrow> quoted_body qs t)"

text \<open>\<open>([\w-]+)\<close>, the bare value: the pattern ends after it, so it takes all it can.\<close>

definition bare :: "string \<Rightarrow> (string \<times> string) option" where
  "bare s =
     (if takeWhile is_word_hyphen s \<noteq> []
      then Some (takeWhile is_word_hyphen s, dropWhile is_word_hyphen s) else None)"

text \<open>
  \<open>=(?:...|...|...|...|...)\<close>: the five alternatives in their order. The result is the
  list of the five value groups (groups 2 to 6 of the pattern), a group that took no part
  in the match being the empty string, as \<open>FindStringSubmatch\<close> reports it.
\<close>

definition flag_value :: "string \<Rightarrow> (string list \<times> string) option" where
  "flag_value s =
     (case lit ''='' s of
        None \<Rightarrow> None
      | Some t \<Rightarrow>
          (case quoted [[dquote]] t of
             Some (v, r) \<Rightarrow> Some ([v, [], [], [], []], r)
           | None \<Rightarrow>
          (case quoted [[squote]] t of
             Some (v, r) \<Rightarrow> Some ([[], v, [], [], []], r)
           | None \<Rightarrow>
          (case quoted [ldquo, rdquo] t of
             Some (v, r) \<Rightarrow> Some ([[], [], v, [], []], r)
           | None \<Rightarrow>
          (case quoted [lsquo, rsquo] t of
             Some (v, r) \<Rightarrow> Some ([[], [], [], v, []], r)
           | None \<Rightarrow>
          (case bare t of
             Some (v, r) \<Rightarrow> Some ([[], [], [], [], v], r)
           | None \<Rightarrow> None))))))"

text \<open>
  The whole pattern at the front of \<open>s\<close>: the submatches \<open>[whole, name, g2, ..., g6]\<close>
  and the input after the match. The value part is optional and tried first.
\<close>

definition flagsRegex_at :: "string \<Rightarrow> (string list \<times> string) option" where
  "flagsRegex_at s =
     (case introducer s of
        None \<Rightarrow> None
      | Some s1 \<Rightarrow>
          (case flag_name s1 of
             None \<Rightarrow> None
           | Some (nm, s2) \<Rightarrow>
               (case flag_value s2 of
                  Some (gs, s3) \<Rightarrow> Some (take (length s - length s3) s # nm # gs, s3)
                | None \<Rightarrow>
                    Some (take (length s - length s2) s # nm # [[], [], [], [], []], s2))))"


text \<open>What a matcher leaves is a suffix of what it was given.\<close>

lemma lit_Some: "lit p s = Some r \<Longrightarrow> s = p @ r"
  by (auto simp: lit_def HasPrefix_def split: if_splits) (metis append_take_drop_id)

lemma one_of_Some: "one_of qs s = Some r \<Longrightarrow> \<exists>q. s = q @ r"
  by (induction qs) (auto split: option.splits dest: lit_Some)

lemma introducer_Some: "introducer s = Some r \<Longrightarrow> \<exists>i. s = i @ r \<and> 2 \<le> length i"
  by (auto simp: introducer_def em_dash_def split: option.splits dest!: lit_Some)

lemma flag_name_Some: "flag_name s = Some (nm, r) \<Longrightarrow> s = nm @ r"
  by (auto simp: flag_name_def split: list.splits if_splits)

lemma quoted_body_Some: "quoted_body qs s = Some (b, r) \<Longrightarrow> \<exists>q. s = b @ q @ r"
proof (induction qs s arbitrary: b r rule: quoted_body.induct)
  case (1 qs s)
  show ?case
  proof (cases s)
    case Nil
    with "1.prems" show ?thesis
      by (auto simp: quoted_body.simps [of qs "[]"] dest: one_of_Some)
  next
    case (Cons c t)
    consider
      (plain) "c \<noteq> backslash" "one_of qs s = None"
    | (escape) "\<not> (c \<noteq> backslash \<and> one_of qs s = None)" "c = backslash" "t \<noteq> []" "hd t \<noteq> newline"
    | (stop) "\<not> (c \<noteq> backslash \<and> one_of qs s = None)" "\<not> (c = backslash \<and> t \<noteq> [] \<and> hd t \<noteq> newline)"
      by auto
    then show ?thesis
    proof cases
      case plain
      with "1.prems" Cons obtain b' where
        rec: "quoted_body qs (drop (rune_len s) s) = Some (b', r)" and
        b: "b = take (rune_len s) s @ b'"
        by (subst (asm) quoted_body.simps) (auto split: option.splits)
      from "1.IH"(1) [OF Cons _ rec] plain obtain q where "drop (rune_len s) s = b' @ q @ r"
        by auto
      then have "s = (take (rune_len s) s @ b') @ q @ r"
        by (metis append.assoc append_take_drop_id)
      with b show ?thesis by blast
    next
      case escape
      with "1.prems" Cons have
        "(\<exists>b'. quoted_body qs (drop (rune_len t) t) = Some (b', r) \<and> b = c # take (rune_len t) t @ b')
         \<or> (b = [] \<and> one_of qs s = Some r)"
        by (subst (asm) quoted_body.simps) (auto split: option.splits)
      then show ?thesis
      proof
        assume "\<exists>b'. quoted_body qs (drop (rune_len t) t) = Some (b', r) \<and> b = c # take (rune_len t) t @ b'"
        then obtain b' where
          rec: "quoted_body qs (drop (rune_len t) t) = Some (b', r)" and
          b: "b = c # take (rune_len t) t @ b'"
          by blast
        from "1.IH"(2) [OF Cons _ _ rec] escape obtain q where "drop (rune_len t) t = b' @ q @ r"
          by auto
        then have "t = (take (rune_len t) t @ b') @ q @ r"
          by (metis append.assoc append_take_drop_id)
        with b Cons show ?thesis by auto
      next
        assume "b = [] \<and> one_of qs s = Some r"
        then show ?thesis by (auto dest: one_of_Some)
      qed
    next
      case stop
      with "1.prems" Cons have "b = [] \<and> one_of qs s = Some r"
        by (subst (asm) quoted_body.simps) (auto split: option.splits if_splits)
      then show ?thesis by (auto dest: one_of_Some)
    qed
  qed
qed

lemma quoted_Some: "quoted qs s = Some (b, r) \<Longrightarrow> \<exists>m. s = m @ r"
  by (auto simp: quoted_def split: option.splits dest!: one_of_Some quoted_body_Some)

lemma bare_Some: "bare s = Some (v, r) \<Longrightarrow> s = v @ r"
  by (auto simp: bare_def split: if_splits)

lemma flag_value_Some: "flag_value s = Some (gs, r) \<Longrightarrow> \<exists>m. s = m @ r"
  by (auto simp: flag_value_def split: option.splits dest!: lit_Some quoted_Some bare_Some)

lemma flagsRegex_at_Some:
  assumes "flagsRegex_at s = Some (sub, r)"
  shows "\<exists>w nm gs. sub = w # nm # gs \<and> length gs = 5 \<and> s = w @ r \<and> 2 < length w"
proof -
  from assms obtain s1 nm s2 where
    i: "introducer s = Some s1" and n: "flag_name s1 = Some (nm, s2)"
    by (auto simp: flagsRegex_at_def split: option.splits)
  from i obtain i' where s: "s = i' @ s1" "2 \<le> length i'"
    by (auto dest: introducer_Some)
  from n have s1: "s1 = nm @ s2" "0 < length nm"
    by (auto simp: flag_name_def split: list.splits if_splits)
  show ?thesis
  proof (cases "flag_value s2")
    case None
    with assms i n have "sub = take (length s - length s2) s # nm # [[], [], [], [], []]" "r = s2"
      by (auto simp: flagsRegex_at_def)
    with s s1 show ?thesis by (cases nm) auto
  next
    case (Some a)
    then obtain gs s3 where a: "a = (gs, s3)" by (cases a)
    with Some obtain m where s2: "s2 = m @ s3" by (auto dest: flag_value_Some)
    from Some a have "length gs = 5"
      by (auto simp: flag_value_def split: option.splits)
    moreover from assms i n Some a have "sub = take (length s - length s3) s # nm # gs" "r = s3"
      by (auto simp: flagsRegex_at_def)
    ultimately show ?thesis using s s1 s2 by (cases nm) auto
  qed
qed


section \<open>Searching and replacing\<close>

text \<open>
  The unanchored search of the engine: the leftmost position where the pattern matches.
  It tries the pattern at the front and, where that fails, moves on by one rune. The
  result is the unmatched input before the match, the submatches and the input after the
  match. Nothing in the pattern looks at the character before the match, so the search at
  an offset is the search in the rest of the input.
\<close>

function find_flag :: "string \<Rightarrow> (string \<times> string list \<times> string) option" where
  "find_flag s =
     (case flagsRegex_at s of
        Some (sub, rest) \<Rightarrow> Some ([], sub, rest)
      | None \<Rightarrow>
          if s = [] then None
          else map_option (\<lambda>(pre, sub, rest). (take (rune_len s) s @ pre, sub, rest))
                 (find_flag (drop (rune_len s) s)))"
  by pat_completeness auto
termination
  by (relation "measure length") (auto simp: rune_len_pos)

declare find_flag.simps [simp del]

text \<open>\<open>flagsRegex.FindStringSubmatch\<close>: the submatches of the leftmost match, \<open>None\<close> for
  the nil slice it returns when there is no match.\<close>

definition FindStringSubmatch :: "string \<Rightarrow> string list option" where
  "FindStringSubmatch s = map_option (\<lambda>(pre, sub, rest). sub) (find_flag s)"

lemma find_flag_Some:
  "find_flag s = Some (pre, sub, rest) \<Longrightarrow>
     \<exists>w nm gs. sub = w # nm # gs \<and> length gs = 5 \<and> s = pre @ w @ rest \<and> 2 < length w"
proof (induction s arbitrary: pre rule: find_flag.induct)
  case (1 s)
  show ?case
  proof (cases "flagsRegex_at s")
    case (Some a)
    with "1.prems" have "flagsRegex_at s = Some (sub, rest)" "pre = []"
      by (auto simp: find_flag.simps [of s])
    then show ?thesis by (auto dest: flagsRegex_at_Some)
  next
    case None
    with "1.prems" obtain pre' where
      ne: "s \<noteq> []" and
      rec: "find_flag (drop (rune_len s) s) = Some (pre', sub, rest)" and
      pre: "pre = take (rune_len s) s @ pre'"
      by (auto simp: find_flag.simps [of s] split: if_splits)
    from "1.IH" [OF None ne rec] obtain w nm gs where
      "sub = w # nm # gs" "length gs = 5" "drop (rune_len s) s = pre' @ w @ rest" "2 < length w"
      by blast
    moreover from this have "s = (take (rune_len s) s @ pre') @ w @ rest"
      by (metis append.assoc append_take_drop_id)
    ultimately show ?thesis using pre by blast
  qed
qed

lemma find_flag_shorter: "find_flag s = Some (pre, sub, rest) \<Longrightarrow> length rest < length s"
  by (auto dest!: find_flag_Some)

datatype panic =
  SliceBounds
| Raised string

text \<open>
  \<open>flagsRegex.ReplaceAllStringFunc(src, repl)\<close>: the matches from left to right, none
  overlapping another; the text between them is copied, each match is replaced by what
  \<open>repl\<close> returns for it. The closure passed in line 132 writes to the flag map, so
  \<open>repl\<close> takes and returns a state, and a panic inside it ends the whole call.
\<close>

function ReplaceAllStringFunc ::
  "('st \<Rightarrow> string \<Rightarrow> panic + ('st \<times> string)) \<Rightarrow> 'st \<Rightarrow> string \<Rightarrow> panic + ('st \<times> string)" where
  "ReplaceAllStringFunc repl st src =
     (case find_flag src of
        None \<Rightarrow> Inr (st, src)
      | Some (pre, sub, rest) \<Rightarrow>
          (case repl st (sub ! 0) of
             Inl e \<Rightarrow> Inl e
           | Inr (st', new) \<Rightarrow>
               (case ReplaceAllStringFunc repl st' rest of
                  Inl e \<Rightarrow> Inl e
                | Inr (st'', out) \<Rightarrow> Inr (st'', pre @ new @ out))))"
  by pat_completeness auto
termination
  by (relation "measure (\<lambda>(repl, st, src). length src)") (auto dest: find_flag_shorter)

declare ReplaceAllStringFunc.simps [simp del]

text \<open>
  The loop of lines 134 to 141 over \<open>sub[2:]\<close>, the five value groups, with \<open>sub[1]\<close> the
  flag's name: the first group that is not empty is stored and ends the loop; each empty
  group before it stores the name itself.
\<close>

fun flag_loop :: "string \<Rightarrow> string list \<Rightarrow> (string \<rightharpoonup> string) \<Rightarrow> (string \<rightharpoonup> string)" where
  "flag_loop nm [] flags = flags"
| "flag_loop nm (elem # elems) flags =
     (if elem \<noteq> [] then flags(nm \<mapsto> elem) else flag_loop nm elems (flags(nm \<mapsto> nm)))"

text \<open>
  The closure of lines 132 to 143. It matches the pattern again on the matched text;
  were there no match, \<open>sub\<close> would be nil and \<open>sub[2:]\<close> a slice out of bounds. It returns
  the empty string, which removes the match from the text.
\<close>

definition flag_repl :: "(string \<rightharpoonup> string) \<Rightarrow> string \<Rightarrow> panic + ((string \<rightharpoonup> string) \<times> string)" where
  "flag_repl flags m =
     (case FindStringSubmatch m of
        None \<Rightarrow> Inl SliceBounds
      | Some sub \<Rightarrow>
          if length sub < 2 then Inl SliceBounds
          else Inr (flag_loop (sub ! 1) (drop 2 sub) flags, []))"

text \<open>
  \<open>delim.ReplaceAllString(src, "$1")\<close> with \<open>delim = (\s)(?:\s)+\<close>: a match is a run of two or
  more whitespace characters, taken whole (the repetition is greedy and nothing follows
  it), and is replaced by its first character, the group \<open>$1\<close>.
\<close>

function delim_ReplaceAllString :: "string \<Rightarrow> string" where
  "delim_ReplaceAllString src =
     (case src of
        [] \<Rightarrow> []
      | c # t \<Rightarrow>
          if is_space c \<and> takeWhile is_space t \<noteq> []
          then c # delim_ReplaceAllString (dropWhile is_space t)
          else take (rune_len src) src @ delim_ReplaceAllString (drop (rune_len src) src))"
  by pat_completeness auto
termination
proof (relation "measure length")
  show "wf (measure length)" by simp
next
  fix src :: string and c t
  assume "src = c # t"
  then show "(dropWhile is_space t, src) \<in> measure length"
    by (simp add: less_Suc_eq_le length_dropWhile_le)
next
  fix src :: string and c t
  assume "src = c # t"
  then have "0 < rune_len src" by (simp add: rune_len_pos)
  with \<open>src = c # t\<close> show "(drop (rune_len src) src, src) \<in> measure length"
    by simp
qed

declare delim_ReplaceAllString.simps [simp del]

text \<open>\<open>strings.Trim(s, " ")\<close>: the spaces (U+0020 only) at both ends are cut.\<close>

definition Trim :: "string \<Rightarrow> string" where
  "Trim s = rev (dropWhile (\<lambda>c. c = CHR '' '') (rev (dropWhile (\<lambda>c. c = CHR '' '') s)))"

text \<open>\<open>strings.Split(s, " ")\<close>: the pieces between the spaces; one piece more than there
  are spaces, so never an empty list.\<close>

function Split :: "string \<Rightarrow> string list" where
  "Split s =
     (case dropWhile (\<lambda>c. c \<noteq> CHR '' '') s of
        [] \<Rightarrow> [s]
      | sp # r \<Rightarrow> takeWhile (\<lambda>c. c \<noteq> CHR '' '') s # Split r)"
  by pat_completeness auto
termination
proof (relation "measure length")
  show "wf (measure length)" by simp
next
  fix s :: string and sp r
  assume "dropWhile (\<lambda>c. c \<noteq> CHR '' '') s = sp # r"
  then have "length (sp # r) \<le> length s"
    by (metis length_dropWhile_le)
  then show "(r, s) \<in> measure length" by simp
qed

declare Split.simps [simp del]

text \<open>
  \<open>strings.ToLower\<close>: a string of ASCII bytes has its letters \<open>A\<close> to \<open>Z\<close> lowered byte by
  byte. Any other string is mapped rune by rune, as \<open>strings.Map(unicode.ToLower, s)\<close> does:
  an ASCII byte is lowered as before, a byte that is no well-formed rune becomes the
  encoding of \<open>RuneError\<close>, and a rune of several bytes is looked up in the Unicode case
  table. The table is not modelled: \<open>unicode_lower\<close> stands for it, taking the encoding of
  a rune to the encoding of its lower case.
\<close>

definition ascii_lower :: "char \<Rightarrow> char" where
  "ascii_lower c = (if 0x41 \<le> byte c \<and> byte c \<le> 0x5A then char_of (byte c + 0x20) else c)"

definition rune_error :: string where
  "rune_error = [CHR 0xEF, CHR 0xBF, CHR 0xBD]"

function Map_ToLower :: "(string \<Rightarrow> string) \<Rightarrow> string \<Rightarrow> string" where
  "Map_ToLower unicode_lower s =
     (if s = [] then []
      else
        (if 1 < rune_len s then unicode_lower (take (rune_len s) s)
         else if byte (hd s) < 0x80 then [ascii_lower (hd s)]
         else rune_error)
        @ Map_ToLower unicode_lower (drop (rune_len s) s))"
  by pat_completeness auto
termination
  by (relation "measure (\<lambda>(f, s). length s)") (auto simp: rune_len_pos)

declare Map_ToLower.simps [simp del]

definition ToLower :: "(string \<Rightarrow> string) \<Rightarrow> string \<Rightarrow> string" where
  "ToLower unicode_lower s =
     (if list_all (\<lambda>c. byte c < 0x80) s then map ascii_lower s
      else Map_ToLower unicode_lower s)"


section \<open>The data model\<close>

text \<open>
  The structures of \<open>discordgo\<close> and of the framework, with the fields the two functions
  read. Handles that are only passed on (the session, the back pointers to the bot and
  to the monitor) are left out; the monitor of a context is kept by its name. A failed
  lookup (\<open>err != nil\<close>) is \<open>None\<close>.
\<close>

record User =
  User_ID :: string
  User_Bot :: bool

record Guild =
  Guild_ID :: string

datatype ChannelType = ChannelTypeGuildText | ChannelTypeDM | ChannelTypeOther nat

record Channel =
  Channel_ID :: string
  Channel_Type :: ChannelType

record Message =
  Content :: string
  GuildID :: string
  ChannelID :: string
  WebhookID :: string
  Author :: User

text \<open>\<open>s.State\<close>: the session's cache, with its two lookups and the bot's own user.\<close>

record State =
  State_Guild :: "string \<Rightarrow> Guild option"
  State_Channel :: "string \<Rightarrow> Channel option"
  State_User :: User

record MonitorContext =
  ctx_Message :: Message
  ctx_Channel :: Channel
  ctx_Author :: User
  ctx_Monitor :: string
  ctx_Guild :: "Guild option"

text \<open>
  A monitor (lines 12 to 20). Its handler is called with the listener's own bot, so it
  is modelled as already applied to it; all the dispatch loop can see of a call is
  whether it returns (\<open>None\<close>) or panics with a value.
\<close>

record Monitor =
  Name :: string
  Enabled :: bool
  Run :: "MonitorContext \<Rightarrow> panic option"
  GuildOnly :: bool
  IgnoreWebhooks :: bool
  IgnoreBots :: bool
  IgnoreSelf :: bool

definition NewMonitor :: "string \<Rightarrow> (MonitorContext \<Rightarrow> panic option) \<Rightarrow> Monitor" where
  "NewMonitor name monitor =
     \<lparr>Name = name, Enabled = True, Run = monitor, GuildOnly = False,
      IgnoreWebhooks = True, IgnoreBots = True, IgnoreSelf = True\<rparr>"

definition AllowBots :: "Monitor \<Rightarrow> Monitor" where
  "AllowBots m = m\<lparr>IgnoreBots := False\<rparr>"

definition AllowWebhooks :: "Monitor \<Rightarrow> Monitor" where
  "AllowWebhooks m = m\<lparr>IgnoreWebhooks := False\<rparr>"

definition AllowSelf :: "Monitor \<Rightarrow> Monitor" where
  "AllowSelf m = m\<lparr>IgnoreSelf := False\<rparr>"

definition SetGuildOnly :: "Monitor \<Rightarrow> bool \<Rightarrow> Monitor" where
  "SetGuildOnly m toggle = m\<lparr>GuildOnly := toggle\<rparr>"

text \<open>A command, as far as \<open>CommandHandlerMonitor\<close> reads it.\<close>

record Command =
  Cmd_Name :: string
  Cmd_Enabled :: bool
  Cmd_OwnerOnly :: bool
  Cmd_GuildOnly :: bool
  Cmd_Cooldown :: int

record CommandContext =
  cc_Command :: Command
  cc_Message :: Message
  cc_Channel :: Channel
  cc_Author :: User
  cc_RawArgs :: "string list"
  cc_Prefix :: string
  cc_Guild :: "Guild option"
  cc_Flags :: "string \<rightharpoonup> string"
  cc_Locale :: "string option"

text \<open>
  The bot, with the fields and methods the two functions use. \<open>Prefix\<close> and \<open>Language\<close>
  are the handlers the user installed, \<open>GetCommand\<close> the lookup of a command by name or
  alias (\<open>None\<close> for nil), \<open>Languages\<close> the table of locales (a locale is kept by its
  name), \<open>CheckCooldown\<close> the cooldown tracker, which answers whether the command may run
  and the time left. The last two fields stand for code outside the two functions:
  \<open>ParseArgs\<close> for the method of the command context of that name, \<open>unicode_lower\<close> for the
  Unicode case table of \<open>strings.ToLower\<close>. \<open>CommandsRan\<close> is a Go \<open>int\<close>, taken at its width
  of 64 bits: \<open>int_incr\<close> is its \<open>++\<close>, which wraps from the largest value to the smallest.
\<close>

definition int_incr :: "int \<Rightarrow> int" where
  "int_incr n = (if n = 2 ^ 63 - 1 then - (2 ^ 63) else n + 1)"

record Bot =
  Monitors :: "Monitor list"
  Prefix :: "Message \<Rightarrow> bool \<Rightarrow> string"
  Language :: "Message \<Rightarrow> bool \<Rightarrow> string"
  Languages :: "string \<rightharpoonup> string"
  GetCommand :: "string \<Rightarrow> Command option"
  OwnerID :: string
  CommandTyping :: bool
  CheckCooldown :: "string \<Rightarrow> string \<Rightarrow> int \<Rightarrow> bool \<times> int"
  CommandsRan :: int
  ParseArgs :: "CommandContext \<Rightarrow> bool"
  unicode_lower :: "string \<Rightarrow> string"

text \<open>What a handler does to the outside, in the order it does it.\<close>

datatype Effect =
  Printf string
| ReplyLocale string "int list"
| ChannelTyping string
| RunCommand CommandContext

section \<open>The dispatch loop\<close>

text \<open>
  The loop of lines 66 to 108 over \<open>bot.Monitors\<close>: the contexts the handlers were called
  with, in order, and the panic that ended the loop, if one did. A handler that panics
  unwinds the loop: the monitors after it are not reached.
\<close>

fun monitor_loop :: "State \<Rightarrow> Message \<Rightarrow> Monitor list \<Rightarrow> MonitorContext list \<times> panic option" where
  "monitor_loop s m [] = ([], None)"
| "monitor_loop s m (monitor # rest) =
     (if \<not> Enabled monitor then monitor_loop s m rest
      else
        case (if GuildID m \<noteq> []
              then (case State_Guild s (GuildID m) of None \<Rightarrow> None | Some g \<Rightarrow> Some (Some g))
              else Some None) of
          None \<Rightarrow> monitor_loop s m rest
        | Some guild \<Rightarrow>
            if GuildOnly monitor \<and> guild = None then monitor_loop s m rest
            else if User_ID (Author m) = User_ID (State_User s) \<and> IgnoreSelf monitor
            then monitor_loop s m rest
            else if User_Bot (Author m) \<and> IgnoreBots monitor then monitor_loop s m rest
            else if WebhookID m \<noteq> [] \<and> IgnoreWebhooks monitor then monitor_loop s m rest
            else
              case State_Channel s (ChannelID m) of
                None \<Rightarrow> monitor_loop s m rest
              | Some channel \<Rightarrow>
                  let ctx = \<lparr>ctx_Message = m, ctx_Channel = channel, ctx_Author = Author m,
                             ctx_Monitor = Name monitor, ctx_Guild = guild\<rparr>
                  in case Run monitor ctx of
                       Some p \<Rightarrow> ([ctx], Some p)
                     | None \<Rightarrow>
                         (case monitor_loop s m rest of (ctxs, r) \<Rightarrow> (ctx # ctxs, r)))"

text \<open>
  The deferred function of lines 109 to 113, run while the goroutine is in the state
  \<open>p\<close> (panicking with a value, or not): \<open>recover\<close> returns the value, or nil, and a value
  is passed to \<open>bot.ErrorHandler\<close>. The result is the list of the values the error handler
  was called with.
\<close>

definition deferred_recover :: "panic option \<Rightarrow> panic list" where
  "deferred_recover p = (case p of None \<Rightarrow> [] | Some err \<Rightarrow> [err])"

text \<open>
  The listener returned by \<open>monitorListener\<close>. The \<open>defer\<close> statement stands after the
  loop (line 109): it is executed, and the function deferred, only when the loop has
  ended without a panic, and the deferred function then runs at the return that follows
  at once. A panic inside the loop finds nothing deferred and leaves the listener.
\<close>

record Dispatch =
  invoked :: "MonitorContext list"
  reported :: "panic list"
  escaped :: "panic option"

definition monitorListener :: "Bot \<Rightarrow> State \<Rightarrow> Message \<Rightarrow> Dispatch" where
  "monitorListener bt s m =
     (case monitor_loop s m (Monitors bt) of
        (ctxs, Some p) \<Rightarrow> \<lparr>invoked = ctxs, reported = [], escaped = Some p\<rparr>
      | (ctxs, None) \<Rightarrow> \<lparr>invoked = ctxs, reported = deferred_recover None, escaped = None\<rparr>)"

section \<open>The command monitor\<close>

text \<open>
  Lines 131 to 143: the flag map and the cleaned content. The flags are taken out of
  the content, runs of whitespace are collapsed, the spaces at the ends are cut.
\<close>

definition parse_flags :: "string \<Rightarrow> panic + ((string \<rightharpoonup> string) \<times> string)" where
  "parse_flags text =
     (case ReplaceAllStringFunc flag_repl Map.empty text of
        Inl e \<Rightarrow> Inl e
      | Inr (flags, stripped) \<Rightarrow> Inr (flags, Trim (delim_ReplaceAllString stripped)))"

text \<open>
  Lines 145 to 156: the content after the prefix, split at the spaces. The slice
  \<open>content[len(prefix):]\<close> panics when the content is shorter than the prefix. The result
  is the split, for \<open>input\<close> and \<open>args\<close> to be taken from it.
\<close>

definition split_content :: "string \<Rightarrow> string \<Rightarrow> panic + string list" where
  "split_content prefix content =
     (if length content < length prefix then Inl SliceBounds
      else Inr (Split (drop (length prefix) content)))"

text \<open>
  Lines 158 to 223, from the lookup of the command on: the bot afterwards (its counter
  of commands run) and the effects.
\<close>

definition run_command ::
  "Bot \<Rightarrow> MonitorContext \<Rightarrow> string \<Rightarrow> (string \<rightharpoonup> string) \<Rightarrow> string \<Rightarrow> string list \<Rightarrow> Bot \<times> Effect list" where
  "run_command bt ctx prefix flags input args =
     (case GetCommand bt input of
        None \<Rightarrow> (bt, [])
      | Some cmd \<Rightarrow>
          let cctx = \<lparr>cc_Command = cmd, cc_Message = ctx_Message ctx, cc_Channel = ctx_Channel ctx,
                      cc_Author = ctx_Author ctx, cc_RawArgs = args, cc_Prefix = prefix,
                      cc_Guild = ctx_Guild ctx, cc_Flags = flags, cc_Locale = None\<rparr>;
              lang = Language bt (ctx_Message ctx) (Channel_Type (ctx_Channel ctx) = ChannelTypeDM)
          in case Languages bt lang of
               None \<Rightarrow> (bt, [Printf lang])
             | Some locale \<Rightarrow>
                 let cctx = cctx\<lparr>cc_Locale := Some locale\<rparr> in
                 if \<not> Cmd_Enabled cmd then (bt, [ReplyLocale ''COMMAND_DISABLED'' []])
                 else if Cmd_OwnerOnly cmd \<and> User_ID (ctx_Author ctx) \<noteq> OwnerID bt
                 then (bt, [ReplyLocale ''COMMAND_OWNER_ONLY'' []])
                 else if Cmd_GuildOnly cmd \<and> GuildID (ctx_Message ctx) = []
                 then (bt, [ReplyLocale ''COMMAND_GUILD_ONLY'' []])
                 else if \<not> ParseArgs bt cctx then (bt, [])
                 else
                   let typing = (if CommandTyping bt
                                 then [ChannelTyping (ChannelID (ctx_Message ctx))] else []);
                       (canRun, after) =
                         CheckCooldown bt (User_ID (ctx_Author ctx)) (Cmd_Name cmd) (Cmd_Cooldown cmd)
                   in if \<not> canRun then (bt, typing @ [ReplyLocale ''COMMAND_COOLDOWN'' [after]])
                      else (bt\<lparr>CommandsRan := int_incr (CommandsRan bt)\<rparr>, typing @ [RunCommand cctx]))"

text \<open>\<open>CommandHandlerMonitor\<close> (lines 123 to 224).\<close>

definition CommandHandlerMonitor :: "Bot \<Rightarrow> MonitorContext \<Rightarrow> panic + (Bot \<times> Effect list)" where
  "CommandHandlerMonitor bt ctx =
     (let prefix = Prefix bt (ctx_Message ctx) (Channel_Type (ctx_Channel ctx) = ChannelTypeDM) in
      if \<not> HasPrefix (Content (ctx_Message ctx)) prefix then Inr (bt, [])
      else
        case parse_flags (Content (ctx_Message ctx)) of
          Inl e \<Rightarrow> Inl e
        | Inr (flags, content) \<Rightarrow>
            (case split_content prefix content of
               Inl e \<Rightarrow> Inl e
             | Inr split \<Rightarrow>
                 if length split < 1 then Inr (bt, [])
                 else
                   let input = ToLower (unicode_lower bt) (split ! 0);
                       args = (if length split > 1 then drop 1 split else [])
                   in Inr (run_command bt ctx prefix flags input args)))"


section \<open>Sample inputs\<close>

text \<open>A user who is not the bot, a session that knows one direct-message channel and no
  guild, a message in that channel without and with a guild id, and a bot with the prefix
  \<open>!\<close>, one locale and no command. The sample texts are ASCII, where \<open>ToLower\<close> does not
  read the case table; the table of the sample bot leaves every rune as it is.\<close>

definition human :: User where
  "human = \<lparr>User_ID = ''7'', User_Bot = False\<rparr>"

definition session :: State where
  "session =
     \<lparr>State_Guild = (\<lambda>g. None),
      State_Channel =
        (\<lambda>c. if c = ''dm'' then Some \<lparr>Channel_ID = ''dm'', Channel_Type = ChannelTypeDM\<rparr> else None),
      State_User = \<lparr>User_ID = ''1'', User_Bot = True\<rparr>\<rparr>"

definition direct_message :: "string \<Rightarrow> Message" where
  "direct_message text =
     \<lparr>Content = text, GuildID = [], ChannelID = ''dm'', WebhookID = [], Author = human\<rparr>"

definition guild_message :: "string \<Rightarrow> Message" where
  "guild_message text =
     \<lparr>Content = text, GuildID = ''g1'', ChannelID = ''dm'', WebhookID = [], Author = human\<rparr>"

definition plain_bot :: "Monitor list \<Rightarrow> Bot" where
  "plain_bot ms =
     \<lparr>Monitors = ms, Prefix = (\<lambda>m dm. ''!''), Language = (\<lambda>m dm. ''en''),
      Languages = [''en'' \<mapsto> ''en''], GetCommand = (\<lambda>n. None), OwnerID = ''42'',
      CommandTyping = False, CheckCooldown = (\<lambda>u c d. (True, 0)), CommandsRan = 0,
      ParseArgs = (\<lambda>c. True), unicode_lower = (\<lambda>s. s)\<rparr>"

text \<open>A command \<open>ping\<close> with the three settings the gates read, a bot that knows just this
  command, and the context the dispatch loop builds for a direct message.\<close>

definition gated_command :: "bool \<Rightarrow> bool \<Rightarrow> bool \<Rightarrow> Command" where
  "gated_command en ow gu =
     \<lparr>Cmd_Name = ''ping'', Cmd_Enabled = en, Cmd_OwnerOnly = ow, Cmd_GuildOnly = gu,
      Cmd_Cooldown = 0\<rparr>"

definition command_bot :: "Command \<Rightarrow> Bot" where
  "command_bot cmd =
     (plain_bot []) \<lparr>GetCommand := (\<lambda>n. if n = Cmd_Name cmd then Some cmd else None)\<rparr>"

definition dm_context :: "string \<Rightarrow> MonitorContext" where
  "dm_context text =
     \<lparr>ctx_Message = direct_message text,
      ctx_Channel = \<lparr>Channel_ID = ''dm'', Channel_Type = ChannelTypeDM\<rparr>,
      ctx_Author = human, ctx_Monitor = ''commands'', ctx_Guild = None\<rparr>"

text \<open>A bot whose prefix ends in a space, and a command registered under the empty name.\<close>

definition spaced_bot :: Bot where
  "spaced_bot = (plain_bot []) \<lparr>Prefix := (\<lambda>m dm. ''hey '')\<rparr>"

definition nameless :: Command where
  "nameless =
     \<lparr>Cmd_Name = [], Cmd_Enabled = True, Cmd_OwnerOnly = False, Cmd_GuildOnly = False,
      Cmd_Cooldown = 0\<rparr>"

text \<open>The equations that evaluate the matchers on a given text.\<close>

lemmas matcher_eval =
  parse_flags_def ReplaceAllStringFunc.simps find_flag.simps flagsRegex_at_def
  introducer_def lit_def HasPrefix_def rune_len_def rune_size_def byte_def em_dash_def
  flag_name_def flag_value_def quoted_def quoted_body.simps bare_def
  is_word_def is_word_hyphen_def is_space_def flag_repl_def FindStringSubmatch_def
  delim_ReplaceAllString.simps Trim_def Let_def ldquo_def rdquo_def lsquo_def rsquo_def

section \<open>Dispatch: panics and unknown guilds\<close>

text \<open>The error handler is never called, whatever the monitors do.\<close>

lemma reported_nil: "reported (monitorListener bt s m) = []"
  by (auto simp: monitorListener_def deferred_recover_def split: prod.splits option.splits)

text \<open>
  C1 says that a panic of a monitor's handler is caught at the dispatch boundary and
  passed to the bot's error handler, and that every monitor registered after it still runs
  on the same event. The listener does not do so: with a monitor \<open>A\<close> whose handler panics
  registered before a monitor \<open>B\<close>, both enabled and eligible for a direct message of a
  user, \<open>A\<close> is the only monitor invoked, the error handler is not called, and the panic
  leaves the listener.
\<close>

theorem listener_panic_escapes:
  "monitorListener
     (plain_bot [NewMonitor ''A'' (\<lambda>ctx. Some (Raised ''boom'')), NewMonitor ''B'' (\<lambda>ctx. None)])
     session (direct_message ''hello'') =
   \<lparr>invoked = [\<lparr>ctx_Message = direct_message ''hello'',
                 ctx_Channel = \<lparr>Channel_ID = ''dm'', Channel_Type = ChannelTypeDM\<rparr>,
                 ctx_Author = human, ctx_Monitor = ''A'', ctx_Guild = None\<rparr>],
    reported = [], escaped = Some (Raised ''boom'')\<rparr>"
  by (simp add: monitorListener_def plain_bot_def NewMonitor_def session_def
      direct_message_def human_def)

lemma monitor_loop_guild_unknown:
  "GuildID m \<noteq> [] \<Longrightarrow> State_Guild s (GuildID m) = None \<Longrightarrow> monitor_loop s m ms = ([], None)"
  by (induction ms) auto

text \<open>
  C2 as stated fails: a monitor that is not guild-only and passes every other gate (it is
  invoked for the same message without a guild id) is not invoked for a message whose
  guild id the session does not know.
\<close>

theorem unknown_guild_counterexample:
  "\<not> GuildOnly (NewMonitor ''B'' (\<lambda>ctx. None)) \<and>
   GuildID (guild_message ''hello'') \<noteq> [] \<and>
   State_Guild session (GuildID (guild_message ''hello'')) = None \<and>
   invoked (monitorListener (plain_bot [NewMonitor ''B'' (\<lambda>ctx. None)]) session
     (direct_message ''hello'')) \<noteq> [] \<and>
   invoked (monitorListener (plain_bot [NewMonitor ''B'' (\<lambda>ctx. None)]) session
     (guild_message ''hello'')) = []"
  by (simp add: monitorListener_def plain_bot_def NewMonitor_def session_def
      direct_message_def guild_message_def human_def deferred_recover_def)

text \<open>
  C2, amended: for every event that carries a guild id whose lookup fails, the dispatch
  skips every monitor, whatever its \<open>GuildOnly\<close> setting: no handler is invoked, nothing is
  reported and nothing panics.
\<close>

theorem unknown_guild_skips_all:
  assumes "GuildID m \<noteq> []" and "State_Guild s (GuildID m) = None"
  shows "monitorListener bt s m = \<lparr>invoked = [], reported = [], escaped = None\<rparr>"
  using assms by (simp add: monitorListener_def monitor_loop_guild_unknown deferred_recover_def)

theorem unknown_guild_skips_all_witness:
  "GuildID (guild_message ''hello'') \<noteq> [] \<and>
   State_Guild session (GuildID (guild_message ''hello'')) = None \<and>
   monitorListener (plain_bot [NewMonitor ''B'' (\<lambda>ctx. None)]) session (guild_message ''hello'')
     = \<lparr>invoked = [], reported = [], escaped = None\<rparr>"
proof -
  have g: "GuildID (guild_message ''hello'') \<noteq> []"
    by (simp add: guild_message_def)
  have l: "State_Guild session (GuildID (guild_message ''hello'')) = None"
    by (simp add: session_def)
  from unknown_guild_skips_all [OF g l] g l show ?thesis by simp
qed

section \<open>The validation gates\<close>

lemma parse_ping: "parse_flags ''!ping'' = Inr (Map.empty, ''!ping'')"
  by (simp add: parse_flags_def ReplaceAllStringFunc.simps find_flag.simps flagsRegex_at_def
      introducer_def lit_def HasPrefix_def rune_len_def rune_size_def byte_def em_dash_def
      delim_ReplaceAllString.simps Trim_def is_space_def Let_def)

lemma split_ping: "split_content ''!'' ''!ping'' = Inr [''ping'']"
  by (simp add: split_content_def Split.simps)

lemma lower_ping: "ToLower f ''ping'' = ''ping''"
  by (simp add: ToLower_def ascii_lower_def byte_def)

text \<open>
  C9: once the command is resolved and its locale found, the gates run in the order
  disabled, owner-only, guild-only. The first gate that fails sends its one localized
  reply and ends the handler: the bot is returned as it was (the counter of commands run
  is not incremented) and the reply is the only effect (the command's handler is not
  run).
\<close>

theorem validation_gates:
  assumes prefix: "prefix = Prefix bt (ctx_Message ctx) (Channel_Type (ctx_Channel ctx) = ChannelTypeDM)"
      "HasPrefix (Content (ctx_Message ctx)) prefix"
    and tokens: "parse_flags (Content (ctx_Message ctx)) = Inr (flags, content)"
      "split_content prefix content = Inr split"
    and resolved: "GetCommand bt (ToLower (unicode_lower bt) (split ! 0)) = Some cmd"
    and lang: "Languages bt (Language bt (ctx_Message ctx)
        (Channel_Type (ctx_Channel ctx) = ChannelTypeDM)) = Some locale"
    and gate: "\<not> Cmd_Enabled cmd
        \<or> (Cmd_OwnerOnly cmd \<and> User_ID (ctx_Author ctx) \<noteq> OwnerID bt)
        \<or> (Cmd_GuildOnly cmd \<and> GuildID (ctx_Message ctx) = [])"
  shows "CommandHandlerMonitor bt ctx =
     Inr (bt, [ReplyLocale
                (if \<not> Cmd_Enabled cmd then ''COMMAND_DISABLED''
                 else if Cmd_OwnerOnly cmd \<and> User_ID (ctx_Author ctx) \<noteq> OwnerID bt
                 then ''COMMAND_OWNER_ONLY''
                 else ''COMMAND_GUILD_ONLY'') []])"
proof -
  from tokens(2) have "split \<noteq> []"
    by (auto simp: split_content_def Split.simps [of "drop (length prefix) content"]
        split: if_splits list.splits)
  then have len: "\<not> length split < 1" by (cases split) auto
  have "run_command bt ctx prefix flags (ToLower (unicode_lower bt) (split ! 0))
          (if length split > 1 then drop 1 split else []) =
        (bt, [ReplyLocale
                (if \<not> Cmd_Enabled cmd then ''COMMAND_DISABLED''
                 else if Cmd_OwnerOnly cmd \<and> User_ID (ctx_Author ctx) \<noteq> OwnerID bt
                 then ''COMMAND_OWNER_ONLY''
                 else ''COMMAND_GUILD_ONLY'') []])"
    using resolved lang gate by (auto simp: run_command_def Let_def)
  with prefix tokens len show ?thesis
    by (simp add: CommandHandlerMonitor_def Let_def)
qed

theorem validation_gates_witness:
  "CommandHandlerMonitor (command_bot (gated_command False True True)) (dm_context ''!ping'') =
     Inr (command_bot (gated_command False True True), [ReplyLocale ''COMMAND_DISABLED'' []]) \<and>
   CommandHandlerMonitor (command_bot (gated_command True True True)) (dm_context ''!ping'') =
     Inr (command_bot (gated_command True True True), [ReplyLocale ''COMMAND_OWNER_ONLY'' []]) \<and>
   CommandHandlerMonitor (command_bot (gated_command True False True)) (dm_context ''!ping'') =
     Inr (command_bot (gated_command True False True), [ReplyLocale ''COMMAND_GUILD_ONLY'' []])"
proof -
  have gate: "CommandHandlerMonitor (command_bot (gated_command en ow gu)) (dm_context ''!ping'') =
     Inr (command_bot (gated_command en ow gu),
       [ReplyLocale (if \<not> en then ''COMMAND_DISABLED'' else if ow then ''COMMAND_OWNER_ONLY''
                     else ''COMMAND_GUILD_ONLY'') []])"
    if "\<not> en \<or> ow \<or> gu" for en ow gu
  proof -
    let ?bt = "command_bot (gated_command en ow gu)" and ?ctx = "dm_context ''!ping''"
    have 1: "''!'' = Prefix ?bt (ctx_Message ?ctx) (Channel_Type (ctx_Channel ?ctx) = ChannelTypeDM)"
      by (simp add: command_bot_def plain_bot_def)
    have 2: "HasPrefix (Content (ctx_Message ?ctx)) ''!''"
      by (simp add: dm_context_def direct_message_def HasPrefix_def)
    have 3: "parse_flags (Content (ctx_Message ?ctx)) = Inr (Map.empty, ''!ping'')"
      by (simp add: dm_context_def direct_message_def parse_ping)
    have 4: "GetCommand ?bt (ToLower (unicode_lower ?bt) ([''ping''] ! 0)) =
        Some (gated_command en ow gu)"
      by (simp add: lower_ping command_bot_def gated_command_def)
    have 5: "Languages ?bt (Language ?bt (ctx_Message ?ctx)
        (Channel_Type (ctx_Channel ?ctx) = ChannelTypeDM)) = Some ''en''"
      by (simp add: command_bot_def plain_bot_def)
    have 6: "\<not> Cmd_Enabled (gated_command en ow gu)
        \<or> (Cmd_OwnerOnly (gated_command en ow gu) \<and> User_ID (ctx_Author ?ctx) \<noteq> OwnerID ?bt)
        \<or> (Cmd_GuildOnly (gated_command en ow gu) \<and> GuildID (ctx_Message ?ctx) = [])"
      using that
      by (simp add: gated_command_def dm_context_def direct_message_def human_def
          command_bot_def plain_bot_def)
    from validation_gates [OF 1 2 3 split_ping 4 5 6] show ?thesis
      by (simp add: gated_command_def dm_context_def direct_message_def human_def
          command_bot_def plain_bot_def)
  qed
  from gate [of False True True] gate [of True True True] gate [of True False True]
  show ?thesis by simp
qed


section \<open>The slice after the prefix and the empty token\<close>

lemma parse_hey_loud: "parse_flags ''hey --loud'' = Inr ([''loud'' \<mapsto> ''loud''], ''hey'')"
  by (simp add: matcher_eval)

text \<open>
  C3 says that the handler never panics on a text that starts with the prefix: the
  cleaned content would always be at least as long as the prefix. It is not: with the
  prefix \<open>hey\<close> followed by a space, the text \<open>hey --loud\<close> starts with the prefix, the flag
  is taken out, the space left at the end is trimmed, and the content \<open>hey\<close> is one byte
  shorter than the prefix. The slice \<open>content[len(prefix):]\<close> is out of bounds.
\<close>

theorem prefix_slice_panics:
  "HasPrefix (Content (ctx_Message (dm_context ''hey --loud'')))
     (Prefix spaced_bot (ctx_Message (dm_context ''hey --loud'')) True) \<and>
   CommandHandlerMonitor spaced_bot (dm_context ''hey --loud'') = Inl SliceBounds"
  by (simp add: CommandHandlerMonitor_def spaced_bot_def plain_bot_def dm_context_def
      direct_message_def HasPrefix_def parse_hey_loud split_content_def)

lemma parse_bang: "parse_flags ''!'' = Inr (Map.empty, ''!'')"
  by (simp add: matcher_eval)

lemma parse_bang_loud: "parse_flags ''!--loud'' = Inr ([''loud'' \<mapsto> ''loud''], ''!'')"
  by (simp add: matcher_eval)

lemma Split_nonempty: "Split s \<noteq> []"
  by (simp add: Split.simps [of s] split: list.splits)

text \<open>The split is never empty, so the test of line 147 never ends the handler: where
  nothing is left after the prefix, the empty string is the token that is looked up. With
  no command of that name the handler returns without an effect.\<close>

lemma empty_token_unknown:
  assumes "prefix = Prefix bt (ctx_Message ctx) (Channel_Type (ctx_Channel ctx) = ChannelTypeDM)"
    and "HasPrefix (Content (ctx_Message ctx)) prefix"
    and "parse_flags (Content (ctx_Message ctx)) = Inr (flags, prefix)"
    and "GetCommand bt [] = None"
  shows "CommandHandlerMonitor bt ctx = Inr (bt, [])"
  using assms
  by (simp add: CommandHandlerMonitor_def split_content_def Split.simps ToLower_def
      run_command_def Let_def)

text \<open>
  C4 says that a text with nothing left after the prefix (only the prefix, or only the
  prefix and flags) yields no command token and that the handler returns without running
  a command. The handler does look the empty token up: with a command registered under
  the empty name, the texts \<open>!\<close> and \<open>!--loud\<close> run that command and count it.
\<close>

theorem empty_token_runs_command:
  "CommandHandlerMonitor (command_bot nameless) (dm_context ''!'') =
     Inr ((command_bot nameless) \<lparr>CommandsRan := 1\<rparr>,
       [RunCommand \<lparr>cc_Command = nameless, cc_Message = direct_message ''!'',
          cc_Channel = \<lparr>Channel_ID = ''dm'', Channel_Type = ChannelTypeDM\<rparr>, cc_Author = human,
          cc_RawArgs = [], cc_Prefix = ''!'', cc_Guild = None, cc_Flags = Map.empty,
          cc_Locale = Some ''en''\<rparr>]) \<and>
   CommandHandlerMonitor (command_bot nameless) (dm_context ''!--loud'') =
     Inr ((command_bot nameless) \<lparr>CommandsRan := 1\<rparr>,
       [RunCommand \<lparr>cc_Command = nameless, cc_Message = direct_message ''!--loud'',
          cc_Channel = \<lparr>Channel_ID = ''dm'', Channel_Type = ChannelTypeDM\<rparr>, cc_Author = human,
          cc_RawArgs = [], cc_Prefix = ''!'', cc_Guild = None, cc_Flags = [''loud'' \<mapsto> ''loud''],
          cc_Locale = Some ''en''\<rparr>])"
  by (simp add: CommandHandlerMonitor_def run_command_def command_bot_def plain_bot_def
      dm_context_def direct_message_def HasPrefix_def parse_bang parse_bang_loud
      split_content_def Split.simps ToLower_def nameless_def human_def Let_def int_incr_def)


section \<open>Matches at a known place\<close>

lemma lit_append: "lit p (p @ x) = Some x"
  by (simp add: lit_def HasPrefix_def)

lemma lit_None: "s = [] \<or> hd s \<noteq> hd p \<Longrightarrow> p \<noteq> [] \<Longrightarrow> lit p s = None"
  by (cases s; cases p) (auto simp: lit_def HasPrefix_def)

lemma introducer_dashes: "introducer (CHR ''-'' # CHR ''-'' # x) = Some x"
  by (simp add: introducer_def lit_def HasPrefix_def)

lemma introducer_em_dash: "introducer (em_dash @ x) = Some x"
  by (simp add: introducer_def lit_def HasPrefix_def em_dash_def)

lemma introducer_None:
  "s = [] \<or> (hd s \<noteq> CHR ''-'' \<and> byte (hd s) \<noteq> 0xE2) \<Longrightarrow> introducer s = None"
  by (cases s) (auto simp: introducer_def lit_def HasPrefix_def em_dash_def byte_def)

lemma flagsRegex_at_None:
  "s = [] \<or> (hd s \<noteq> CHR ''-'' \<and> byte (hd s) \<noteq> 0xE2) \<Longrightarrow> flagsRegex_at s = None"
  by (simp add: flagsRegex_at_def introducer_None)

lemma takeWhile_all: "list_all P xs \<Longrightarrow> ys = [] \<or> \<not> P (hd ys) \<Longrightarrow> takeWhile P (xs @ ys) = xs"
  by (induction xs) (auto simp: takeWhile_eq_Nil_iff)

lemma dropWhile_all: "list_all P xs \<Longrightarrow> ys = [] \<or> \<not> P (hd ys) \<Longrightarrow> dropWhile P (xs @ ys) = ys"
  by (induction xs) (auto simp: dropWhile_eq_self_iff)

lemma flag_name_exact:
  assumes "is_word c" "cs \<noteq> []" "list_all is_word_hyphen cs" "x = [] \<or> \<not> is_word_hyphen (hd x)"
  shows "flag_name (c # cs @ x) = Some (c # cs, x)"
  using assms by (simp add: flag_name_def takeWhile_all dropWhile_all)

lemma flag_name_single:
  assumes "x = [] \<or> \<not> is_word_hyphen (hd x)"
  shows "flag_name (c # x) = None"
  using assms by (cases x) (auto simp: flag_name_def)

lemma flag_value_None: "x = [] \<or> hd x \<noteq> CHR ''='' \<Longrightarrow> flag_value x = None"
  by (cases x) (auto simp: flag_value_def lit_def HasPrefix_def)

lemma rune_len_ascii: "byte c < 0x80 \<Longrightarrow> rune_len (c # s) = 1"
  by (simp add: rune_len_def rune_size_def)

lemma accept_cont: "\<not> byte d < accept_lo c \<Longrightarrow> \<not> accept_hi c < byte d \<Longrightarrow> cont d"
  by (auto simp: accept_lo_def accept_hi_def cont_def split: if_splits)

lemma rune_len_conts:
  assumes "Suc i < rune_len (c # t)"
  shows "cont (t ! i)"
proof -
  have "i = 0 \<or> i = 1 \<or> i = 2"
    using assms by (auto simp: rune_len_def Let_def split: if_splits)
  moreover have "cont (t ! 0)" if "1 < rune_len (c # t)"
    using that by (auto simp: rune_len_def Let_def split: if_splits intro: accept_cont)
  moreover have "cont (t ! 1)" if "2 < rune_len (c # t)"
    using that by (auto simp: rune_len_def Let_def split: if_splits)
  moreover have "cont (t ! 2)" if "3 < rune_len (c # t)"
    using that by (auto simp: rune_len_def Let_def split: if_splits)
  ultimately show ?thesis using assms by auto
qed

lemma rune_len_append:
  assumes "pre \<noteq> []" and "s = [] \<or> \<not> cont (hd s)"
  shows "rune_len (pre @ s) \<le> length pre"
proof (rule ccontr)
  assume "\<not> rune_len (pre @ s) \<le> length pre"
  then have gt: "length pre < rune_len (pre @ s)" by simp
  obtain a p where pre: "pre = a # p" using assms(1) by (cases pre) auto
  from gt rune_len_le [of "pre @ s"] have "s \<noteq> []" by auto
  from gt pre have "Suc (length p) < rune_len (a # p @ s)" by simp
  then have "cont ((p @ s) ! length p)" by (rule rune_len_conts)
  with \<open>s \<noteq> []\<close> have "cont (hd s)" by (cases s) auto
  with assms(2) \<open>s \<noteq> []\<close> show False by simp
qed


text \<open>The result of replacing in the rest of a text, with the text \<open>pre\<close> copied in front
  of the output.\<close>

definition copied :: "string \<Rightarrow> panic + ('st \<times> string) \<Rightarrow> panic + ('st \<times> string)" where
  "copied pre r = (case r of Inl e \<Rightarrow> Inl e | Inr (st, out) \<Rightarrow> Inr (st, pre @ out))"

lemma copied_simps [simp]:
  "copied pre (Inl e) = Inl e"
  "copied pre (Inr (st, out)) = Inr (st, pre @ out)"
  by (simp_all add: copied_def)

lemma copied_copied: "copied a (copied b r) = copied (a @ b) r"
  by (auto simp: copied_def split: sum.splits)

lemma Replace_match:
  assumes "flagsRegex_at s = Some (w # sub, rest)"
  shows "ReplaceAllStringFunc repl st s =
    (case repl st w of
       Inl e \<Rightarrow> Inl e
     | Inr (st1, new) \<Rightarrow> copied new (ReplaceAllStringFunc repl st1 rest))"
  using assms
  by (auto simp: ReplaceAllStringFunc.simps [of _ _ s] find_flag.simps [of s]
      split: sum.splits prod.splits)

lemma Replace_no_match:
  assumes "flagsRegex_at s = None" "s \<noteq> []"
  shows "ReplaceAllStringFunc repl st s =
    copied (take (rune_len s) s) (ReplaceAllStringFunc repl st (drop (rune_len s) s))"
proof (cases "find_flag (drop (rune_len s) s)")
  case None
  moreover from None assms have "find_flag s = None"
    by (simp add: find_flag.simps [of s])
  ultimately show ?thesis
    by (simp add: ReplaceAllStringFunc.simps [of _ _ s]
        ReplaceAllStringFunc.simps [of _ _ "drop (rune_len s) s"])
next
  case (Some a)
  obtain p sub rest where a: "a = (p, sub, rest)" by (cases a)
  with Some assms have "find_flag s = Some (take (rune_len s) s @ p, sub, rest)"
    by (simp add: find_flag.simps [of s])
  with Some a show ?thesis
    by (auto simp: ReplaceAllStringFunc.simps [of _ _ s]
        ReplaceAllStringFunc.simps [of _ _ "drop (rune_len s) s"]
        split: prod.splits sum.splits)
qed

text \<open>A flag without a value, alone: the match and what the closure stores. The token
  ends where the name ends, and no value part follows it.\<close>

lemma bare_token_match:
  assumes "intro = ''--'' \<or> intro = em_dash"
    and "is_word c" "cs \<noteq> []" "list_all is_word_hyphen cs"
    and "post = [] \<or> \<not> is_word_hyphen (hd post)" and "flag_value post = None"
  shows "flagsRegex_at (intro @ c # cs @ post) =
    Some ([intro @ c # cs, c # cs, [], [], [], [], []], post)"
proof -
  have i: "introducer (intro @ c # cs @ post) = Some (c # cs @ post)"
    using assms(1) introducer_dashes [of "c # cs @ post"] introducer_em_dash [of "c # cs @ post"]
    by auto
  have n: "flag_name (c # cs @ post) = Some (c # cs, post)"
    using assms by (intro flag_name_exact) auto
  show ?thesis
    by (simp add: flagsRegex_at_def i n assms(6))
qed


lemma bare_token_repl:
  assumes "intro = ''--'' \<or> intro = em_dash"
    and "is_word c" "cs \<noteq> []" "list_all is_word_hyphen cs"
  shows "flag_repl flags (intro @ c # cs) = Inr (flags(c # cs \<mapsto> c # cs), [])"
proof -
  from bare_token_match [OF assms, of "[]"] flag_value_None [of "[]"]
  have "find_flag (intro @ c # cs) = Some ([], [intro @ c # cs, c # cs, [], [], [], [], []], [])"
    by (simp add: find_flag.simps [of "intro @ c # cs"])
  then show ?thesis
    by (simp add: flag_repl_def FindStringSubmatch_def)
qed

lemma hd_intro_not_cont: "intro = ''--'' \<or> intro = em_dash \<Longrightarrow> \<not> cont (hd (intro @ s))"
  by (auto simp: cont_def byte_def em_dash_def)

section \<open>The shape of a name\<close>

lemma is_word_ascii: "is_word c \<Longrightarrow> byte c < 0x80 \<and> c \<noteq> CHR ''-'' \<and> byte c \<noteq> 0xE2"
  by (auto simp: is_word_def Let_def byte_def)

lemma flag_name_shape:
  assumes "flagsRegex_at s = Some (w # nm # gs, r)"
  shows "2 \<le> length nm \<and> is_word (hd nm) \<and> list_all is_word_hyphen (tl nm)"
proof -
  from assms obtain s1 s2 where "flag_name s1 = Some (nm, s2)"
    by (auto simp: flagsRegex_at_def split: option.splits)
  then show ?thesis
    by (cases s1) (auto simp: flag_name_def list_all_iff Suc_le_eq dest: set_takeWhileD split: if_splits)
qed

lemma short_token_no_match:
  assumes "intro = ''--'' \<or> intro = em_dash" and "post = [] \<or> \<not> is_word_hyphen (hd post)"
  shows "flagsRegex_at (intro @ c # post) = None"
proof -
  have "introducer (intro @ c # post) = Some (c # post)"
    using assms(1) introducer_dashes [of "c # post"] introducer_em_dash [of "c # post"] by auto
  then show ?thesis
    using assms(2) by (simp add: flagsRegex_at_def flag_name_single)
qed

section \<open>The match of a quoted value with escaped quotes\<close>

text \<open>The flag \<open>--msg="he said \"hi\""\<close> of the specification and the text between its outer
  quotes, fourteen bytes with the two backslashes.\<close>

definition msg_value :: string where
  "msg_value = ''he said '' @ [backslash, dquote] @ ''hi'' @ [backslash, dquote]"

definition msg_flag :: string where
  "msg_flag = ''--msg='' @ [dquote] @ msg_value @ [dquote]"

lemma msg_body: "quoted_body [[dquote]] (msg_value @ dquote # post) = Some (msg_value, post)"
  by (simp add: msg_value_def quoted_body.simps lit_def HasPrefix_def rune_len_def rune_size_def byte_def)

lemma msg_flag_match:
  "flagsRegex_at (msg_flag @ post) = Some ([msg_flag, ''msg'', msg_value, [], [], [], []], post)"
proof -
  have "introducer (msg_flag @ post) = Some (''msg='' @ dquote # msg_value @ dquote # post)"
    by (simp add: msg_flag_def introducer_def lit_def HasPrefix_def)
  moreover have "flag_name (''msg='' @ dquote # msg_value @ dquote # post) =
      Some (''msg'', CHR ''='' # dquote # msg_value @ dquote # post)"
    by (simp add: flag_name_def is_word_def is_word_hyphen_def byte_def)
  moreover have "flag_value (CHR ''='' # dquote # msg_value @ dquote # post) =
      Some ([msg_value, [], [], [], []], post)"
    by (simp add: flag_value_def lit_def HasPrefix_def quoted_def msg_body)
  moreover have "take (length (msg_flag @ post) - length post) (msg_flag @ post) = msg_flag"
    by simp
  ultimately show ?thesis
    by (simp add: flagsRegex_at_def)
qed

lemma msg_flag_repl: "flag_repl flags msg_flag = Inr (flags(''msg'' \<mapsto> msg_value), [])"
proof -
  have "msg_value \<noteq> []" by (simp add: msg_value_def)
  with msg_flag_match [of "[]"] show ?thesis
    by (simp add: flag_repl_def FindStringSubmatch_def find_flag.simps [of msg_flag])
qed

section \<open>Whitespace\<close>

text \<open>
  The specification's account of the cleaning, byte by byte: of every run of whitespace
  characters the first is kept and the others are dropped. A run of one character is left
  as it is.
\<close>

function collapse :: "string \<Rightarrow> string" where
  "collapse [] = []"
| "collapse (c # t) = (if is_space c then c # collapse (dropWhile is_space t) else c # collapse t)"
  by pat_completeness auto
termination
  by (relation "measure length") (auto simp: less_Suc_eq_le length_dropWhile_le)

text \<open>Two whitespace characters stand next to each other somewhere in the text.\<close>

fun adjacent_spaces :: "string \<Rightarrow> bool" where
  "adjacent_spaces (a # b # s) = (is_space a \<and> is_space b \<or> adjacent_spaces (b # s))"
| "adjacent_spaces s = False"

lemma collapse_plain: "list_all (\<lambda>c. \<not> is_space c) p \<Longrightarrow> collapse (p @ r) = p @ collapse r"
  by (induction p) auto

lemma cont_not_space: "cont c \<Longrightarrow> \<not> is_space c"
  by (auto simp: cont_def is_space_def)

lemma rune_chunk_plain:
  assumes "\<not> is_space c"
  shows "list_all (\<lambda>x. \<not> is_space x) (take (rune_len (c # t)) (c # t))"
proof -
  have "\<not> is_space x" if "x \<in> set (take (rune_len (c # t) - 1) t)" for x
  proof -
    from that obtain i where "i < length (take (rune_len (c # t) - 1) t)"
      "x = take (rune_len (c # t) - 1) t ! i"
      by (auto simp: in_set_conv_nth)
    then have "Suc i < rune_len (c # t)" "x = t ! i" by auto
    then show ?thesis using rune_len_conts cont_not_space by blast
  qed
  moreover have "0 < rune_len (c # t)" by (simp add: rune_len_pos)
  ultimately show ?thesis using assms
    by (cases "rune_len (c # t)") (auto simp: list_all_iff)
qed

lemma delim_collapse: "delim_ReplaceAllString s = collapse s"
proof (induction s rule: delim_ReplaceAllString.induct)
  case (1 src)
  show ?case
  proof (cases src)
    case Nil
    then show ?thesis by (simp add: delim_ReplaceAllString.simps)
  next
    case (Cons c t)
    show ?thesis
    proof (cases "is_space c \<and> takeWhile is_space t \<noteq> []")
      case True
      with Cons "1.IH"(1) show ?thesis
        by (simp add: delim_ReplaceAllString.simps [of "c # t"])
    next
      case False
      from Cons False "1.IH"(2) have ih: "delim_ReplaceAllString (drop (rune_len src) src) =
          collapse (drop (rune_len src) src)"
        by blast
      have "delim_ReplaceAllString (c # t) =
          take (rune_len (c # t)) (c # t) @ delim_ReplaceAllString (drop (rune_len (c # t)) (c # t))"
        using False by (subst delim_ReplaceAllString.simps) auto
      with ih Cons have rec: "delim_ReplaceAllString src =
          take (rune_len src) src @ collapse (drop (rune_len src) src)"
        by simp
      show ?thesis
      proof (cases "is_space c")
        case True
        with False have "dropWhile is_space t = t"
          by (cases t) (auto simp: takeWhile_eq_Nil_iff)
        moreover from True have "rune_len (c # t) = 1"
          by (intro rune_len_ascii) (auto simp: is_space_def)
        ultimately show ?thesis using rec Cons True by simp
      next
        case plain: False
        then have "collapse (take (rune_len src) src @ drop (rune_len src) src) =
            take (rune_len src) src @ collapse (drop (rune_len src) src)"
          using Cons rune_chunk_plain [of c t] by (intro collapse_plain) simp
        with rec show ?thesis by simp
      qed
    qed
  qed
qed

lemma collapse_hd: "collapse s = [] \<longleftrightarrow> s = []" "s \<noteq> [] \<Longrightarrow> hd (collapse s) = hd s"
  by (cases s; simp)+

lemma adjacent_Cons:
  "adjacent_spaces (a # s) \<longleftrightarrow> (s \<noteq> [] \<and> is_space a \<and> is_space (hd s)) \<or> adjacent_spaces s"
  by (cases s) auto

lemma collapse_no_adjacent: "\<not> adjacent_spaces (collapse s)"
proof (induction s rule: collapse.induct)
  case 1
  then show ?case by simp
next
  case (2 c t)
  show ?case
  proof (cases "is_space c")
    case True
    show ?thesis
    proof (cases "dropWhile is_space t")
      case Nil
      with True have "collapse (c # t) = [c]"
        by (simp del: dropWhile_eq_Nil_conv)
      then show ?thesis by simp
    next
      case (Cons d r)
      then have "\<not> is_space d"
        using hd_dropWhile [of is_space t] by simp
      with True 2 Cons show ?thesis
        by (simp add: adjacent_Cons)
    qed
  next
    case False
    with 2 show ?thesis by (auto simp: adjacent_Cons)
  qed
qed

lemma adjacent_prefix: "adjacent_spaces m \<Longrightarrow> adjacent_spaces (m @ b)"
  by (induction m rule: adjacent_spaces.induct) auto

lemma adjacent_suffix: "adjacent_spaces m \<Longrightarrow> adjacent_spaces (a @ m)"
  by (induction a) (simp_all add: adjacent_Cons)

lemma adjacent_infix: "\<not> adjacent_spaces (a @ m @ b) \<Longrightarrow> \<not> adjacent_spaces m"
  using adjacent_prefix adjacent_suffix by blast

lemma rev_dropWhile_split: "xs = rev (dropWhile P (rev xs)) @ rev (takeWhile P (rev xs))"
proof -
  have "rev (takeWhile P (rev xs) @ dropWhile P (rev xs)) = xs"
    by (simp only: takeWhile_dropWhile_id rev_rev_ident)
  then show ?thesis by (simp only: rev_append)
qed

lemma Trim_infix:
  "\<exists>a b. s = a @ Trim s @ b \<and> list_all (\<lambda>c. c = CHR '' '') a \<and> list_all (\<lambda>c. c = CHR '' '') b"
proof -
  let ?P = "\<lambda>c. c = CHR '' ''"
  let ?m = "dropWhile ?P s"
  have 2: "?m = Trim s @ rev (takeWhile ?P (rev ?m))"
    unfolding Trim_def by (rule rev_dropWhile_split)
  have 3: "list_all ?P (takeWhile ?P s)" "list_all ?P (rev (takeWhile ?P (rev ?m)))"
    by (auto simp: list_all_iff dest: set_takeWhileD)
  have "s = takeWhile ?P s @ ?m" by simp
  also note 2
  finally have "s = takeWhile ?P s @ Trim s @ rev (takeWhile ?P (rev ?m))" .
  with 3 show ?thesis by blast
qed

lemma Trim_ends: "Trim s = [] \<or> (hd (Trim s) \<noteq> CHR '' '' \<and> last (Trim s) \<noteq> CHR '' '')"
proof (cases "Trim s = []")
  case True
  then show ?thesis by simp
next
  case False
  define P where "P = (\<lambda>c. c = CHR '' '')"
  define m where "m = dropWhile P s"
  define r where "r = dropWhile P (rev m)"
  have t: "Trim s = rev r"
    by (simp only: Trim_def r_def m_def P_def)
  with False have r: "r \<noteq> []" by simp
  then have "\<not> P (hd r)"
    unfolding r_def by (rule hd_dropWhile)
  moreover from r have "last (rev r) = hd r" by (cases r) simp_all
  ultimately have l: "last (Trim s) \<noteq> CHR '' ''"
    by (simp add: t P_def)
  have "m \<noteq> []"
  proof
    assume "m = []"
    then have "r = []" by (simp only: r_def rev.simps dropWhile.simps)
    with r show False by contradiction
  qed
  then have "\<not> P (hd m)"
    unfolding m_def by (rule hd_dropWhile)
  moreover have "m = rev r @ rev (takeWhile P (rev m))"
    unfolding r_def by (rule rev_dropWhile_split)
  moreover have "hd (rev r @ rev (takeWhile P (rev m))) = hd (rev r)"
    using r by (intro hd_append2) simp
  ultimately have "\<not> P (hd (rev r))" by metis
  then have "hd (Trim s) \<noteq> CHR '' ''"
    by (simp add: t P_def)
  with l show ?thesis by blast
qed

lemma collapse_run:
  assumes "is_space c" "list_all is_space ws" "rest = [] \<or> \<not> is_space (hd rest)"
  shows "collapse (c # ws @ rest) = c # collapse rest"
  using assms by (simp add: dropWhile_all)

text \<open>
  C8 as stated fails: a run of whitespace is not always collapsed into a space, and
  whitespace at the ends is not always trimmed. In the text \<open>!cmd\<close>, two line feeds,
  \<open>arg1\<close>, a line feed, the run of two line feeds becomes one line feed, not a space, and
  the line feed at the end stays.
\<close>

theorem whitespace_counterexample:
  "is_space newline \<and> newline \<noteq> CHR '' '' \<and>
   parse_flags (''!cmd'' @ [newline, newline] @ ''arg1'' @ [newline]) =
     Inr (Map.empty, ''!cmd'' @ [newline] @ ''arg1'' @ [newline])"
  by (simp add: matcher_eval)

text \<open>
  C8, amended: the content is the text without its flags, cleaned by \<open>collapse\<close> and then
  trimmed. A run of whitespace characters (tab, line feed, form feed, carriage return,
  space) is replaced by its first character, so a run that starts with a space by one
  space. No two whitespace characters are adjacent in the result. The trimming takes
  spaces, and only spaces, from both ends: the content neither starts nor ends with a
  space. The witness is the example of the claim: \<open>!cmd  --flag=x   arg1\<close> gives the
  content \<open>!cmd arg1\<close>, the token \<open>cmd\<close>, the argument \<open>arg1\<close> and the flag \<open>flag\<close> with the
  value \<open>x\<close>.
\<close>

theorem whitespace_cleaning:
  assumes "is_space c" and "list_all is_space ws" and "rest = [] \<or> \<not> is_space (hd rest)"
  shows "parse_flags text =
           (case ReplaceAllStringFunc flag_repl Map.empty text of
              Inl e \<Rightarrow> Inl e
            | Inr (flags, stripped) \<Rightarrow> Inr (flags, Trim (collapse stripped))) \<and>
         collapse (c # ws @ rest) = c # collapse rest \<and>
         \<not> adjacent_spaces (Trim (collapse s)) \<and>
         (\<exists>a b. collapse s = a @ Trim (collapse s) @ b \<and>
            list_all (\<lambda>x. x = CHR '' '') a \<and> list_all (\<lambda>x. x = CHR '' '') b) \<and>
         (Trim (collapse s) = [] \<or>
            hd (Trim (collapse s)) \<noteq> CHR '' '' \<and> last (Trim (collapse s)) \<noteq> CHR '' '')"
proof -
  have "parse_flags text =
      (case ReplaceAllStringFunc flag_repl Map.empty text of
         Inl e \<Rightarrow> Inl e
       | Inr (flags, stripped) \<Rightarrow> Inr (flags, Trim (collapse stripped)))"
    by (simp add: parse_flags_def delim_collapse split: sum.splits)
  moreover have "collapse (c # ws @ rest) = c # collapse rest"
    using assms by (rule collapse_run)
  moreover obtain a b where ab: "collapse s = a @ Trim (collapse s) @ b"
      "list_all (\<lambda>x. x = CHR '' '') a" "list_all (\<lambda>x. x = CHR '' '') b"
    using Trim_infix [of "collapse s"] by blast
  moreover have "\<not> adjacent_spaces (Trim (collapse s))"
  proof -
    have "\<not> adjacent_spaces (a @ Trim (collapse s) @ b)"
      using collapse_no_adjacent [of s] ab(1) by metis
    then show ?thesis by (rule adjacent_infix)
  qed
  moreover note Trim_ends [of "collapse s"]
  ultimately show ?thesis by blast
qed

theorem whitespace_cleaning_witness:
  "is_space CHR '' '' \<and>
   parse_flags ''!cmd  --flag=x   arg1'' = Inr ([''flag'' \<mapsto> ''x''], ''!cmd arg1'') \<and>
   split_content ''!'' ''!cmd arg1'' = Inr [''cmd'', ''arg1'']"
proof -
  have sp: "is_space CHR '' ''" "list_all is_space ''    ''" "''arg1'' = [] \<or> \<not> is_space (hd ''arg1'')"
    by (simp_all add: is_space_def byte_def)
  have r: "ReplaceAllStringFunc flag_repl Map.empty ''!cmd  --flag=x   arg1'' =
      Inr ([''flag'' \<mapsto> ''x''], ''!cmd     arg1'')"
    by (simp add: matcher_eval)
  have w: "\<not> is_space CHR ''!''" "\<not> is_space CHR ''c''" "\<not> is_space CHR ''m''" "\<not> is_space CHR ''d''"
    "\<not> is_space CHR ''a''" "\<not> is_space CHR ''r''" "\<not> is_space CHR ''g''" "\<not> is_space CHR ''1''"
    by (simp_all add: is_space_def byte_def)
  from whitespace_cleaning [OF sp, of "''!cmd  --flag=x   arg1''"]
  have "parse_flags ''!cmd  --flag=x   arg1'' =
      Inr ([''flag'' \<mapsto> ''x''], Trim (collapse ''!cmd     arg1''))"
    and "collapse (CHR '' '' # ''    '' @ ''arg1'') = CHR '' '' # collapse ''arg1''"
    by (simp_all add: r)
  moreover have "Trim ''!cmd arg1'' = ''!cmd arg1''"
    by (simp add: Trim_def)
  ultimately have "parse_flags ''!cmd  --flag=x   arg1'' = Inr ([''flag'' \<mapsto> ''x''], ''!cmd arg1'')"
    using w by simp
  moreover have "split_content ''!'' ''!cmd arg1'' = Inr [''cmd'', ''arg1'']"
    by (simp add: split_content_def Split.simps)
  ultimately show ?thesis using sp(1) by simp
qed


section \<open>All matches of a text\<close>

lemma rune_size_le: "rune_size c \<le> 4"
  by (simp add: rune_size_def Let_def)

lemma rune_len_prefix:
  assumes "rune_len (p @ x) \<le> length p"
  shows "rune_len p = rune_len (p @ x)"
proof (cases p)
  case Nil
  with assms show ?thesis by (cases x) (simp_all add: rune_len_def Let_def)
next
  case (Cons c t)
  note c = Cons
  show ?thesis
  proof (cases t)
    case Nil
    with c assms have "rune_len (c # x) \<le> 1" by simp
    moreover have "0 < rune_len (c # x)" by (simp add: rune_len_pos)
    ultimately have "rune_len (c # x) = 1" by simp
    moreover have "rune_len [c] = 1" by (simp add: rune_len_def Let_def)
    ultimately show ?thesis using c Nil by simp
  next
    case (Cons d u)
    note d = Cons
    show ?thesis
    proof (cases u)
      case Nil
      with c d assms have "rune_len (c # d # x) \<le> 2" by simp
      then show ?thesis using c d Nil
        by (auto simp: rune_len_def Let_def split: if_splits)
    next
      case (Cons e v)
      note e = Cons
      show ?thesis
      proof (cases v)
        case Nil
        with c d e assms have "rune_len (c # d # e # x) \<le> 3" by simp
        then show ?thesis using c d e Nil
          by (auto simp: rune_len_def Let_def split: if_splits)
      next
        case (Cons f y)
        then show ?thesis using c d e rune_size_le [of c]
          by (auto simp: rune_len_def Let_def)
      qed
    qed
  qed
qed

text \<open>A quote class of the pattern: its members are not empty, none starts with a
  backslash, all have the same length in bytes.\<close>

definition quote_class :: "nat \<Rightarrow> string list \<Rightarrow> bool" where
  "quote_class n qs = list_all (\<lambda>q. q \<noteq> [] \<and> hd q \<noteq> backslash \<and> length q = n) qs"

lemma one_of_member: "one_of qs s = Some r \<Longrightarrow> \<exists>q. q \<in> set qs \<and> s = q @ r"
  by (induction qs) (auto split: option.splits dest: lit_Some)

lemma lit_same_length: "length q' = length q \<Longrightarrow> lit q' (q @ x) = (if q' = q then Some x else None)"
  by (auto simp: lit_def HasPrefix_def)

lemma one_of_same_length:
  "\<forall>q'\<in>set qs. length q' = n \<Longrightarrow> length q = n \<Longrightarrow> q \<in> set qs \<Longrightarrow>
    one_of qs (q @ x) = Some x"
  by (induction qs) (auto simp: lit_same_length)

lemma one_of_exact:
  assumes "quote_class n qs" "q \<in> set qs"
  shows "one_of qs (q @ x) = Some x"
proof -
  from assms have "\<forall>q'\<in>set qs. length q' = n" "length q = n"
    by (auto simp: quote_class_def list_all_iff)
  then show ?thesis using assms(2) by (rule one_of_same_length)
qed

lemma lit_prefix_None: "lit q (a @ b) = None \<Longrightarrow> lit q a = None"
  by (auto simp: lit_def HasPrefix_def split: if_splits)

lemma one_of_prefix_None: "one_of qs (a @ b) = None \<Longrightarrow> one_of qs a = None"
  by (induction qs) (auto split: option.splits dest: lit_prefix_None)

lemma one_of_hd:
  assumes "quote_class n qs" "one_of qs s = Some r"
  shows "s \<noteq> [] \<and> hd s \<noteq> backslash"
proof -
  from assms(2) obtain q where "q \<in> set qs" "s = q @ r" by (auto dest: one_of_member)
  with assms(1) show ?thesis by (auto simp: quote_class_def list_all_iff)
qed

lemma quoted_body_stop:
  assumes "quote_class n qs" "one_of qs s = Some r"
  shows "quoted_body qs s = Some ([], r)"
proof -
  from one_of_hd [OF assms] obtain c t where s: "s = c # t" "c \<noteq> backslash"
    by (cases s) auto
  with assms(2) show ?thesis
    by (subst quoted_body.simps) simp
qed

lemma quoted_body_plain:
  assumes "one_of qs (c # t) = None" "c \<noteq> backslash"
  shows "quoted_body qs (c # t) =
    map_option (\<lambda>(b, r). (take (rune_len (c # t)) (c # t) @ b, r))
      (quoted_body qs (drop (rune_len (c # t)) (c # t)))"
  using assms by (subst quoted_body.simps) (auto split: option.splits)

lemma quoted_body_escape:
  assumes "one_of qs (backslash # t) = None" "t \<noteq> []" "hd t \<noteq> newline"
  shows "quoted_body qs (backslash # t) =
    map_option (\<lambda>(b, r). (backslash # take (rune_len t) t @ b, r))
      (quoted_body qs (drop (rune_len t) t))"
  using assms by (subst quoted_body.simps) (auto split: option.splits)

lemma quoted_body_fail:
  assumes "one_of qs s = None"
    and "s = [] \<or> (hd s = backslash \<and> (tl s = [] \<or> hd (tl s) = newline))"
  shows "quoted_body qs s = None"
  using assms by (subst quoted_body.simps) (auto split: list.splits)

lemma quoted_body_trunc:
  "quote_class n qs \<Longrightarrow> quoted_body qs s = Some (b, r) \<Longrightarrow>
    \<exists>q. s = b @ q @ r \<and> quoted_body qs (b @ q) = Some (b, [])"
proof (induction qs s arbitrary: b rule: quoted_body.induct)
  case (1 qs s)
  note cls = "1.prems"(1)
  note res = "1.prems"(2)
  show ?case
  proof (cases "one_of qs s")
    case (Some r')
    with res cls have br: "b = []" "r' = r"
      by (simp_all add: quoted_body_stop)
    from Some obtain q where q: "q \<in> set qs" "s = q @ r'" by (auto dest: one_of_member)
    from cls q(1) have "one_of qs (q @ []) = Some []" by (rule one_of_exact)
    with cls have "quoted_body qs q = Some ([], [])" by (simp add: quoted_body_stop)
    with br q show ?thesis by auto
  next
    case None
    show ?thesis
    proof (cases s)
      case Nil
      with None res show ?thesis by (simp add: quoted_body_fail)
    next
      case (Cons c t)
      show ?thesis
      proof (cases "c = backslash")
        case False
        define w where "w = rune_len s"
        define front where "front = take w s"
        define rst where "rst = drop w s"
        have fb: "front @ rst = s" by (simp add: front_def rst_def)
        have w: "0 < w" "w \<le> length s"
          using Cons rune_len_pos [of s] rune_len_le [of s] by (simp_all add: w_def)
        then have lf: "length front = w" by (simp add: front_def)
        have "quoted_body qs (c # t) =
            map_option (\<lambda>(b, r). (take (rune_len (c # t)) (c # t) @ b, r))
              (quoted_body qs (drop (rune_len (c # t)) (c # t)))"
          by (rule quoted_body_plain) (use None False Cons in auto)
        then have eq: "quoted_body qs s = map_option (\<lambda>(b, r). (front @ b, r)) (quoted_body qs rst)"
          unfolding Cons [symmetric] front_def rst_def w_def .
        with res obtain b' where
          rec: "quoted_body qs rst = Some (b', r)" and b: "b = front @ b'"
          by (cases "quoted_body qs rst") auto
        have "\<exists>q. rst = b' @ q @ r \<and> quoted_body qs (b' @ q) = Some (b', [])"
          using "1.IH"(1) [OF Cons _ cls, of b'] rec False None
          unfolding rst_def w_def by blast
        then obtain q where
          q: "rst = b' @ q @ r" "quoted_body qs (b' @ q) = Some (b', [])"
          by blast
        define st where "st = front @ b' @ q"
        have st: "st @ r = s" unfolding st_def using fb q(1) by simp
        have "rune_len (st @ r) \<le> length st" unfolding st using w lf by (simp add: st_def w_def)
        then have "rune_len st = rune_len (st @ r)" by (rule rune_len_prefix)
        then have rl: "rune_len st = w" unfolding st by (simp add: w_def)
        have tf: "take w st = front" "drop w st = b' @ q"
          using lf by (simp_all add: st_def)
        obtain t' where hd: "st = c # t'"
        proof (cases front)
          case Nil
          with lf w show ?thesis by simp
        next
          case (Cons x xs)
          with fb \<open>s = c # t\<close> have "x = c" by (cases rst) auto
          with Cons that show ?thesis by (simp add: st_def)
        qed
        have "one_of qs (st @ r) = None" unfolding st by (rule None)
        then have no: "one_of qs st = None" by (rule one_of_prefix_None)
        have "quoted_body qs (c # t') =
            map_option (\<lambda>(b, r). (take (rune_len (c # t')) (c # t') @ b, r))
              (quoted_body qs (drop (rune_len (c # t')) (c # t')))"
          by (rule quoted_body_plain) (use no False hd in auto)
        then have "quoted_body qs st =
            map_option (\<lambda>(b, r). (take w st @ b, r)) (quoted_body qs (drop w st))"
          unfolding hd [symmetric] rl .
        then have "quoted_body qs st = Some (front @ b', [])"
          unfolding tf q(2) by simp
        then have "quoted_body qs (b @ q) = Some (b, [])" by (simp add: b st_def)
        moreover have "s = b @ q @ r" using st [symmetric] by (simp add: b st_def)
        ultimately show ?thesis by blast
      next
        case True
        show ?thesis
        proof (cases "t \<noteq> [] \<and> hd t \<noteq> newline")
          case False
          with None Cons True res show ?thesis
            by (auto simp: quoted_body_fail)
        next
          case esc: True
          define w where "w = rune_len t"
          define front where "front = take w t"
          define rst where "rst = drop w t"
          have fb: "front @ rst = t" by (simp add: front_def rst_def)
          have w: "0 < w" "w \<le> length t"
            using esc rune_len_pos [of t] rune_len_le [of t] by (simp_all add: w_def)
          then have lf: "length front = w" by (simp add: front_def)
          have "quoted_body qs (backslash # t) =
              map_option (\<lambda>(b, r). (backslash # take (rune_len t) t @ b, r))
                (quoted_body qs (drop (rune_len t) t))"
            by (rule quoted_body_escape) (use None True Cons esc in auto)
          then have eq: "quoted_body qs s =
              map_option (\<lambda>(b, r). (backslash # front @ b, r)) (quoted_body qs rst)"
            unfolding True [symmetric] Cons [symmetric] front_def rst_def w_def .
          with res obtain b' where
            rec: "quoted_body qs rst = Some (b', r)" and b: "b = backslash # front @ b'"
            by (cases "quoted_body qs rst") auto
          have "\<exists>q. rst = b' @ q @ r \<and> quoted_body qs (b' @ q) = Some (b', [])"
            using "1.IH"(2) [OF Cons _ _ cls, of b'] rec True esc None
            unfolding rst_def w_def by blast
          then obtain q where
            q: "rst = b' @ q @ r" "quoted_body qs (b' @ q) = Some (b', [])"
            by blast
          define tt where "tt = front @ b' @ q"
          have tt: "tt @ r = t" unfolding tt_def using fb q(1) by simp
          have "rune_len (tt @ r) \<le> length tt" unfolding tt using w lf by (simp add: tt_def w_def)
          then have "rune_len tt = rune_len (tt @ r)" by (rule rune_len_prefix)
          then have rl: "rune_len tt = w" unfolding tt by (simp add: w_def)
          have tf: "take w tt = front" "drop w tt = b' @ q"
            using lf by (simp_all add: tt_def)
          have ne: "tt \<noteq> [] \<and> hd tt = hd t"
          proof (cases front)
            case Nil
            with lf w show ?thesis by simp
          next
            case (Cons x xs)
            with fb have "hd t = x" by (cases t) auto
            with Cons show ?thesis by (simp add: tt_def)
          qed
          have "one_of qs ((backslash # tt) @ r) = None"
            using None unfolding Cons True by (simp add: tt)
          then have no: "one_of qs (backslash # tt) = None" by (rule one_of_prefix_None)
          have "quoted_body qs (backslash # tt) =
              map_option (\<lambda>(b, r). (backslash # take (rune_len tt) tt @ b, r))
                (quoted_body qs (drop (rune_len tt) tt))"
            by (rule quoted_body_escape) (use no ne esc in auto)
          then have "quoted_body qs (backslash # tt) = Some (backslash # front @ b', [])"
            unfolding rl tf q(2) by simp
          then have "quoted_body qs (b @ q) = Some (b, [])" by (simp add: b tt_def)
          moreover have "s = b @ q @ r" unfolding Cons True using tt [symmetric] by (simp add: b tt_def)
          ultimately show ?thesis by blast
        qed
      qed
    qed
  qed
qed

lemma introducer_cases: "introducer s = Some r \<Longrightarrow> s = ''--'' @ r \<or> s = em_dash @ r"
  by (auto simp: introducer_def split: option.splits dest: lit_Some)

lemma quote_classes:
  "quote_class 1 [[dquote]]" "quote_class 1 [[squote]]"
  "quote_class 3 [ldquo, rdquo]" "quote_class 3 [lsquo, rsquo]"
  by (simp_all add: quote_class_def ldquo_def rdquo_def lsquo_def rsquo_def)

lemma quoted_trunc:
  assumes "quote_class n qs" "quoted qs t = Some (v, r)"
  shows "\<exists>q m. q \<in> set qs \<and> t = q @ m @ r \<and> quoted qs (q @ m) = Some (v, [])"
proof -
  from assms(2) obtain t' where o: "one_of qs t = Some t'" and b: "quoted_body qs t' = Some (v, r)"
    by (auto simp: quoted_def split: option.splits)
  from o obtain q where q: "q \<in> set qs" "t = q @ t'" by (auto dest: one_of_member)
  from quoted_body_trunc [OF assms(1) b] obtain c where
    c: "t' = v @ c @ r" "quoted_body qs (v @ c) = Some (v, [])"
    by blast
  from assms(1) q(1) have "one_of qs (q @ v @ c) = Some (v @ c)" by (rule one_of_exact)
  with c(2) have "quoted qs (q @ v @ c) = Some (v, [])" by (simp add: quoted_def)
  moreover from q(2) c(1) have "t = q @ (v @ c) @ r" by simp
  ultimately show ?thesis using q(1) by blast
qed

lemma quoted_other:
  "one_of qs m = None \<Longrightarrow> quoted qs m = None"
  by (simp add: quoted_def)

lemma word_hyphen_plain:
  "is_word_hyphen c \<Longrightarrow> c \<noteq> dquote \<and> c \<noteq> squote \<and> c \<noteq> CHR 0xE2 \<and> c \<noteq> CHR ''=''"
  by (auto simp: is_word_hyphen_def is_word_def Let_def byte_def)

lemma bare_quotes_None:
  assumes "is_word_hyphen c"
  shows "quoted [[dquote]] (c # m) = None" "quoted [[squote]] (c # m) = None"
    "quoted [ldquo, rdquo] (c # m) = None" "quoted [lsquo, rsquo] (c # m) = None"
  using word_hyphen_plain [OF assms]
  by (simp_all add: quoted_def lit_def HasPrefix_def ldquo_def rdquo_def lsquo_def rsquo_def)

lemma bare_trunc:
  assumes "bare t = Some (v, r)"
  shows "t = v @ r \<and> bare v = Some (v, []) \<and> v \<noteq> [] \<and> is_word_hyphen (hd v)"
proof -
  from assms have v: "v = takeWhile is_word_hyphen t" "v \<noteq> []" "r = dropWhile is_word_hyphen t"
    by (auto simp: bare_def split: if_splits)
  then have all: "\<forall>x\<in>set v. is_word_hyphen x" by (auto dest: set_takeWhileD)
  then have tw: "takeWhile is_word_hyphen v = v" "dropWhile is_word_hyphen v = []"
    by (simp_all add: takeWhile_eq_all_conv)
  have "bare v = Some (v, [])"
    unfolding bare_def tw using v(2) by simp
  moreover from v(2) all have "is_word_hyphen (hd v)" by (cases v) auto
  moreover from v(1,3) have "t = v @ r" by simp
  ultimately show ?thesis using v(2) by blast
qed

lemma flag_value_trunc:
  assumes "flag_value s = Some (gs, r)"
  shows "\<exists>m. s = CHR ''='' # m @ r \<and> flag_value (CHR ''='' # m) = Some (gs, [])"
proof -
  from assms obtain t where s: "s = CHR ''='' # t"
    by (auto simp: flag_value_def split: option.splits dest!: lit_Some)
  have fv: "flag_value (CHR ''='' # x) =
      (case quoted [[dquote]] x of
         Some (v, r) \<Rightarrow> Some ([v, [], [], [], []], r)
       | None \<Rightarrow>
      (case quoted [[squote]] x of
         Some (v, r) \<Rightarrow> Some ([[], v, [], [], []], r)
       | None \<Rightarrow>
      (case quoted [ldquo, rdquo] x of
         Some (v, r) \<Rightarrow> Some ([[], [], v, [], []], r)
       | None \<Rightarrow>
      (case quoted [lsquo, rsquo] x of
         Some (v, r) \<Rightarrow> Some ([[], [], [], v, []], r)
       | None \<Rightarrow>
      (case bare x of
         Some (v, r) \<Rightarrow> Some ([[], [], [], [], v], r)
       | None \<Rightarrow> None)))))" for x
    by (simp add: flag_value_def lit_def HasPrefix_def)
  show ?thesis
  proof (cases "quoted [[dquote]] t")
    case (Some a)
    obtain v r' where a: "a = (v, r')" by (cases a)
    with Some assms s have g: "gs = [v, [], [], [], []]" "r' = r" by (simp_all add: fv)
    from quoted_trunc [OF quote_classes(1)] Some a g obtain q m where
      "t = q @ m @ r" "quoted [[dquote]] (q @ m) = Some (v, [])" by blast
    with g s show ?thesis by (intro exI [of _ "q @ m"]) (simp add: fv)
  next
    case d: None
    show ?thesis
    proof (cases "quoted [[squote]] t")
      case (Some a)
      obtain v r' where a: "a = (v, r')" by (cases a)
      with Some d assms s have g: "gs = [[], v, [], [], []]" "r' = r" by (simp_all add: fv)
      from quoted_trunc [OF quote_classes(2)] Some a g obtain q m where
        q: "q \<in> set [[squote]]" "t = q @ m @ r" "quoted [[squote]] (q @ m) = Some (v, [])" by blast
      then have "quoted [[dquote]] (q @ m) = None"
        by (simp add: quoted_def lit_def HasPrefix_def)
      with q g s show ?thesis by (intro exI [of _ "q @ m"]) (simp add: fv)
    next
      case sq: None
      show ?thesis
      proof (cases "quoted [ldquo, rdquo] t")
        case (Some a)
        obtain v r' where a: "a = (v, r')" by (cases a)
        with Some d sq assms s have g: "gs = [[], [], v, [], []]" "r' = r" by (simp_all add: fv)
        from quoted_trunc [OF quote_classes(3)] Some a g obtain q m where
          q: "q \<in> set [ldquo, rdquo]" "t = q @ m @ r" "quoted [ldquo, rdquo] (q @ m) = Some (v, [])"
          by blast
        then have "quoted [[dquote]] (q @ m) = None" "quoted [[squote]] (q @ m) = None"
          by (auto simp: quoted_def lit_def HasPrefix_def ldquo_def rdquo_def)
        with q g s show ?thesis by (intro exI [of _ "q @ m"]) (simp add: fv)
      next
        case ld: None
        show ?thesis
        proof (cases "quoted [lsquo, rsquo] t")
          case (Some a)
          obtain v r' where a: "a = (v, r')" by (cases a)
          with Some d sq ld assms s have g: "gs = [[], [], [], v, []]" "r' = r"
            by (simp_all add: fv)
          from quoted_trunc [OF quote_classes(4)] Some a g obtain q m where
            q: "q \<in> set [lsquo, rsquo]" "t = q @ m @ r" "quoted [lsquo, rsquo] (q @ m) = Some (v, [])"
            by blast
          then have "quoted [[dquote]] (q @ m) = None" "quoted [[squote]] (q @ m) = None"
            "quoted [ldquo, rdquo] (q @ m) = None"
            by (auto simp: quoted_def lit_def HasPrefix_def ldquo_def rdquo_def lsquo_def rsquo_def)
          with q g s show ?thesis by (intro exI [of _ "q @ m"]) (simp add: fv)
        next
          case ls: None
          from assms s d sq ld ls obtain v where b: "bare t = Some (v, r)" and g: "gs = [[], [], [], [], v]"
            by (auto simp: fv split: option.splits)
          from bare_trunc [OF b] obtain c m where
            v: "t = v @ r" "bare v = Some (v, [])" "v = c # m" "is_word_hyphen c"
            by (cases v) auto
          from bare_quotes_None [OF v(4), of m] v(2,3) have "flag_value (CHR ''='' # v) = Some (gs, [])"
            by (simp add: fv g)
          with v(1) s show ?thesis by (intro exI [of _ v]) simp
        qed
      qed
    qed
  qed
qed

lemma introducer_append:
  "i = ''--'' \<or> i = em_dash \<Longrightarrow> introducer (i @ x) = Some x"
  using introducer_dashes [of x] introducer_em_dash [of x] by auto

lemma flag_name_parts:
  assumes "flag_name s = Some (nm, r)"
  shows "\<exists>c cs. nm = c # cs \<and> is_word c \<and> cs \<noteq> [] \<and> list_all is_word_hyphen cs \<and>
    s = nm @ r \<and> (r = [] \<or> \<not> is_word_hyphen (hd r))"
proof -
  from assms obtain c t where s: "s = c # t" "is_word c" "takeWhile is_word_hyphen t \<noteq> []"
    "nm = c # takeWhile is_word_hyphen t" "r = dropWhile is_word_hyphen t"
    by (cases s) (auto simp: flag_name_def split: if_splits)
  have "list_all is_word_hyphen (takeWhile is_word_hyphen t)"
    by (auto simp: list_all_iff dest: set_takeWhileD)
  moreover have "r = [] \<or> \<not> is_word_hyphen (hd r)"
    unfolding s(5) using hd_dropWhile [of is_word_hyphen t] by blast
  moreover have "s = nm @ r" unfolding s(1,4,5) by simp
  ultimately show ?thesis using s(2,3,4) by blast
qed

lemma equals_not_name: "\<not> is_word_hyphen CHR ''=''"
  by (simp add: is_word_hyphen_def is_word_def byte_def)

text \<open>
  The closure matches the pattern again on the matched text alone, and finds the same
  submatches: whatever the match read is inside the match.
\<close>

lemma rematch:
  assumes "flagsRegex_at s = Some (sub, r)"
  shows "flagsRegex_at (sub ! 0) = Some (sub, [])"
proof -
  from assms obtain s1 nm s2 where
    i: "introducer s = Some s1" and n: "flag_name s1 = Some (nm, s2)"
    by (auto simp: flagsRegex_at_def split: option.splits)
  from i obtain intro where intro: "intro = ''--'' \<or> intro = em_dash" "s = intro @ s1"
    using introducer_cases by blast
  from flag_name_parts [OF n] obtain c cs where
    nm: "nm = c # cs" "is_word c" "cs \<noteq> []" "list_all is_word_hyphen cs" "s1 = nm @ s2"
    by blast
  show ?thesis
  proof (cases "flag_value s2")
    case None
    with assms i n have "sub = take (length s - length s2) s # nm # [[], [], [], [], []]"
      by (auto simp: flagsRegex_at_def)
    moreover have "take (length s - length s2) s = intro @ nm"
      unfolding intro(2) nm(5) by simp
    ultimately have sub: "sub = (intro @ nm) # nm # [[], [], [], [], []]" by simp
    have "flag_name (c # cs @ []) = Some (c # cs, [])"
      using nm(2,3,4) by (intro flag_name_exact) auto
    then have "flag_name nm = Some (nm, [])" by (simp add: nm(1))
    moreover have "flag_value [] = None" by (simp add: flag_value_None)
    ultimately have "flagsRegex_at (intro @ nm) = Some ((intro @ nm) # nm # [[], [], [], [], []], [])"
      using introducer_append [OF intro(1), of nm] by (simp add: flagsRegex_at_def)
    with sub show ?thesis by simp
  next
    case (Some a)
    obtain gs s3 where a: "a = (gs, s3)" by (cases a)
    from flag_value_trunc [of s2 gs s3] Some a obtain m where
      m: "s2 = CHR ''='' # m @ s3" "flag_value (CHR ''='' # m) = Some (gs, [])"
      by auto
    from assms i n Some a have "sub = take (length s - length s3) s # nm # gs"
      by (auto simp: flagsRegex_at_def)
    moreover have "take (length s - length s3) s = intro @ nm @ CHR ''='' # m"
      unfolding intro(2) nm(5) m(1) by simp
    ultimately have sub: "sub = (intro @ nm @ CHR ''='' # m) # nm # gs" by simp
    have "flag_name (c # cs @ CHR ''='' # m) = Some (c # cs, CHR ''='' # m)"
      using nm(2,3,4) equals_not_name by (intro flag_name_exact) auto
    then have "flag_name (nm @ CHR ''='' # m) = Some (nm, CHR ''='' # m)" by (simp add: nm(1))
    then have "flagsRegex_at (intro @ nm @ CHR ''='' # m) =
        Some ((intro @ nm @ CHR ''='' # m) # nm # gs, [])"
      using introducer_append [OF intro(1), of "nm @ CHR ''='' # m"] m(2)
      by (simp add: flagsRegex_at_def)
    with sub show ?thesis by simp
  qed
qed

lemma find_flag_match:
  "find_flag s = Some (pre, sub, rest) \<Longrightarrow> flagsRegex_at (sub ! 0 @ rest) = Some (sub, rest)"
proof (induction s arbitrary: pre rule: find_flag.induct)
  case (1 s)
  show ?case
  proof (cases "flagsRegex_at s")
    case (Some a)
    with "1.prems" have m: "flagsRegex_at s = Some (sub, rest)"
      by (auto simp: find_flag.simps [of s])
    then have "s = sub ! 0 @ rest" by (auto dest: flagsRegex_at_Some)
    with m show ?thesis by metis
  next
    case None
    with "1.prems" obtain pre' where
      "s \<noteq> []" "find_flag (drop (rune_len s) s) = Some (pre', sub, rest)"
      by (auto simp: find_flag.simps [of s] split: if_splits)
    with "1.IH" None show ?thesis by blast
  qed
qed

text \<open>What the closure stores for a match: the first value group that is not empty, else
  the name.\<close>

definition stored_value :: "string list \<Rightarrow> string" where
  "stored_value sub =
     (case filter (\<lambda>v. v \<noteq> []) (drop 2 sub) of [] \<Rightarrow> sub ! 1 | v # vs \<Rightarrow> v)"

lemma flag_loop_stores:
  "gs \<noteq> [] \<Longrightarrow> flag_loop nm gs flags =
     flags(nm \<mapsto> (case filter (\<lambda>v. v \<noteq> []) gs of [] \<Rightarrow> nm | v # vs \<Rightarrow> v))"
proof (induction gs arbitrary: flags)
  case Nil
  then show ?case by simp
next
  case (Cons g gs)
  then show ?case by (cases gs) auto
qed

lemma flag_repl_match:
  assumes "flagsRegex_at s = Some (sub, r)"
  shows "flag_repl flags (sub ! 0) = Inr (flags(sub ! 1 \<mapsto> stored_value sub), [])"
proof -
  from rematch [OF assms] have "find_flag (sub ! 0) = Some ([], sub, [])"
    by (simp add: find_flag.simps [of "sub ! 0"])
  moreover from assms obtain w nm gs where sub: "sub = w # nm # gs" "length gs = 5"
    by (auto dest: flagsRegex_at_Some)
  moreover from sub have "gs \<noteq> []" by auto
  ultimately show ?thesis
    by (simp add: flag_repl_def FindStringSubmatch_def flag_loop_stores stored_value_def
        cong: list.case_cong)
qed

text \<open>
  All matches of a text from left to right, as \<open>FindAllStringSubmatch\<close> would list them,
  each with the unmatched text before it, and the unmatched text after the last match.
\<close>

function flag_matches :: "string \<Rightarrow> (string \<times> string list) list" where
  "flag_matches s =
     (case find_flag s of
        None \<Rightarrow> []
      | Some (pre, sub, rest) \<Rightarrow> (pre, sub) # flag_matches rest)"
  by pat_completeness auto
termination
  by (relation "measure length") (auto dest: find_flag_shorter)

declare flag_matches.simps [simp del]

function last_gap :: "string \<Rightarrow> string" where
  "last_gap s =
     (case find_flag s of
        None \<Rightarrow> s
      | Some (pre, sub, rest) \<Rightarrow> last_gap rest)"
  by pat_completeness auto
termination
  by (relation "measure length") (auto dest: find_flag_shorter)

declare last_gap.simps [simp del]

text \<open>The entry a match leaves in the flag map.\<close>

definition store :: "(string \<rightharpoonup> string) \<Rightarrow> string list \<Rightarrow> (string \<rightharpoonup> string)" where
  "store flags sub = flags(sub ! 1 \<mapsto> stored_value sub)"

text \<open>
  The replacement as a whole: the closure never panics; the flag map is the fold of the
  entries of the matches in their order, the output is the unmatched text.
\<close>

lemma Replace_all_matches:
  "ReplaceAllStringFunc flag_repl flags src =
     Inr (foldl store flags (map snd (flag_matches src)),
          concat (map fst (flag_matches src)) @ last_gap src)"
proof (induction src arbitrary: flags rule: flag_matches.induct)
  case (1 s)
  show ?case
  proof (cases "find_flag s")
    case None
    then show ?thesis
      by (simp add: ReplaceAllStringFunc.simps [of _ _ s] flag_matches.simps [of s]
          last_gap.simps [of s])
  next
    case (Some a)
    obtain pre sub rest where a: "a = (pre, sub, rest)" by (cases a)
    from Some a have "flagsRegex_at (sub ! 0 @ rest) = Some (sub, rest)"
      by (auto dest: find_flag_match)
    then have "flag_repl flags (sub ! 0) = Inr (store flags sub, [])"
      by (simp add: flag_repl_match store_def)
    moreover have "ReplaceAllStringFunc flag_repl (store flags sub) rest =
        Inr (foldl store (store flags sub) (map snd (flag_matches rest)),
             concat (map fst (flag_matches rest)) @ last_gap rest)"
      using "1.IH" Some a by blast
    ultimately show ?thesis using Some a
      by (simp add: ReplaceAllStringFunc.simps [of _ _ s] flag_matches.simps [of s]
          last_gap.simps [of s])
  qed
qed

lemma matches_text:
  "concat (map (\<lambda>(pre, sub). pre @ sub ! 0) (flag_matches src)) @ last_gap src = src"
proof (induction src rule: flag_matches.induct)
  case (1 s)
  show ?case
  proof (cases "find_flag s")
    case None
    then show ?thesis
      by (simp add: flag_matches.simps [of s] last_gap.simps [of s])
  next
    case (Some a)
    obtain pre sub rest where a: "a = (pre, sub, rest)" by (cases a)
    from Some a have "pre @ sub ! 0 @ rest = s"
      by (auto dest!: find_flag_Some)
    moreover have "concat (map (\<lambda>(pre, sub). pre @ sub ! 0) (flag_matches rest)) @ last_gap rest = rest"
      using "1.IH" Some a by blast
    ultimately show ?thesis using Some a
      by (simp add: flag_matches.simps [of s] last_gap.simps [of s])
  qed
qed

lemma store_other: "list_all (\<lambda>m. m ! 1 \<noteq> k) ms \<Longrightarrow> foldl store flags ms k = flags k"
  by (induction ms arbitrary: flags) (auto simp: store_def)

lemma store_last:
  assumes "list_all (\<lambda>m. m ! 1 \<noteq> sub ! 1) after"
  shows "foldl store flags (before @ sub # after) (sub ! 1) = Some (stored_value sub)"
  using assms by (simp add: store_other) (simp add: store_def)

text \<open>
  C7: the matches of a text are processed from left to right, each storing its entry
  over what was stored before, and every matched substring is taken out of the text: the
  text is the unmatched pieces with the matches between them, the output is the
  unmatched pieces alone. So for a match after which no match has the same name, the
  final flag map holds that match's value under the name. The witness is the text
  \<open>!go --to=a --to=b\<close>: the flag map is \<open>to\<close> with the value \<open>b\<close> and the content is \<open>!go\<close>.
\<close>

theorem last_flag_wins:
  assumes "map snd (flag_matches src) = before @ sub # after"
    and "list_all (\<lambda>m. m ! 1 \<noteq> sub ! 1) after"
  shows "ReplaceAllStringFunc flag_repl flags src =
           Inr (foldl store flags (map snd (flag_matches src)),
                concat (map fst (flag_matches src)) @ last_gap src) \<and>
         foldl store flags (map snd (flag_matches src)) (sub ! 1) = Some (stored_value sub) \<and>
         src = concat (map (\<lambda>(pre, sub). pre @ sub ! 0) (flag_matches src)) @ last_gap src"
proof -
  have "foldl store flags (map snd (flag_matches src)) (sub ! 1) = Some (stored_value sub)"
    unfolding assms(1) using assms(2) by (rule store_last)
  then show ?thesis by (simp add: Replace_all_matches matches_text)
qed

text \<open>A text with the flag \<open>to\<close> given twice.\<close>

definition twice :: string where
  "twice = ''!go --to=a --to=b''"

lemma twice_matches:
  "flag_matches twice =
     [(''!go '', [''--to=a'', ''to'', [], [], [], [], ''a'']),
      ('' '', [''--to=b'', ''to'', [], [], [], [], ''b''])]"
  "last_gap twice = []"
  by (simp_all add: twice_def flag_matches.simps last_gap.simps matcher_eval)

theorem last_flag_wins_witness:
  "map snd (flag_matches twice) =
     [[''--to=a'', ''to'', [], [], [], [], ''a'']] @ [''--to=b'', ''to'', [], [], [], [], ''b''] # [] \<and>
   parse_flags twice = Inr ([''to'' \<mapsto> ''b''], ''!go'') \<and>
   twice = ''!go '' @ ''--to=a'' @ '' '' @ ''--to=b''"
proof -
  have m: "map snd (flag_matches twice) =
     [[''--to=a'', ''to'', [], [], [], [], ''a'']] @ [''--to=b'', ''to'', [], [], [], [], ''b''] # []"
    by (simp add: twice_matches)
  have a: "list_all (\<lambda>m. m ! 1 \<noteq> [''--to=b'', ''to'', [], [], [], [], ''b''] ! 1) []"
    by simp
  from last_flag_wins [OF m a, of Map.empty]
  have "ReplaceAllStringFunc flag_repl Map.empty twice = Inr ([''to'' \<mapsto> ''b''], ''!go  '')"
    by (simp add: twice_matches store_def stored_value_def)
  then have "parse_flags twice = Inr ([''to'' \<mapsto> ''b''], ''!go'')"
    by (simp add: parse_flags_def delim_ReplaceAllString.simps Trim_def is_space_def byte_def
        rune_len_def rune_size_def Let_def)
  with m show ?thesis by (simp add: twice_def)
qed

text \<open>The flags of a text are always parsed: the only panic of the handler is the slice
  after the prefix.\<close>

lemma parse_flags_total: "\<exists>flags content. parse_flags src = Inr (flags, content)"
  by (simp add: parse_flags_def Replace_all_matches)


section \<open>The keys of the flag map\<close>

text \<open>Every key of the flag map of a text is the name of a match, so it has the shape of
  a name.\<close>

lemma matches_are_matches:
  "(pre, sub) \<in> set (flag_matches src) \<Longrightarrow> \<exists>s r. flagsRegex_at s = Some (sub, r)"
proof (induction src rule: flag_matches.induct)
  case (1 s)
  show ?case
  proof (cases "find_flag s")
    case None
    with "1.prems" show ?thesis by (simp add: flag_matches.simps [of s])
  next
    case (Some a)
    obtain p m rest where a: "a = (p, m, rest)" by (cases a)
    with Some "1.prems" have "(pre, sub) = (p, m) \<or> (pre, sub) \<in> set (flag_matches rest)"
      by (simp add: flag_matches.simps [of s])
    then show ?thesis
    proof
      assume "(pre, sub) = (p, m)"
      with Some a show ?thesis by (auto dest: find_flag_match)
    next
      assume "(pre, sub) \<in> set (flag_matches rest)"
      with "1.IH" Some a show ?thesis by blast
    qed
  qed
qed

lemma stored_key:
  "foldl store flags subs k = Some v \<Longrightarrow> flags k = Some v \<or> (\<exists>sub\<in>set subs. sub ! 1 = k)"
proof (induction subs arbitrary: flags)
  case Nil
  then show ?case by simp
next
  case (Cons m subs)
  from Cons.IH [OF Cons.prems [simplified]] show ?case
    by (auto simp: store_def split: if_splits)
qed

lemma flag_keys_long:
  assumes "parse_flags src = Inr (flags, content)" and "flags k = Some v"
  shows "2 \<le> length k \<and> is_word (hd k) \<and> list_all is_word_hyphen (tl k)"
proof -
  from assms(1) have "flags = foldl store Map.empty (map snd (flag_matches src))"
    by (simp add: parse_flags_def Replace_all_matches)
  with assms(2) obtain sub where "sub \<in> set (map snd (flag_matches src))" "sub ! 1 = k"
    using stored_key [of Map.empty "map snd (flag_matches src)" k v] by auto
  then obtain pre where "(pre, sub) \<in> set (flag_matches src)" by auto
  then obtain s r where m: "flagsRegex_at s = Some (sub, r)"
    using matches_are_matches by blast
  then obtain w nm gs where "sub = w # nm # gs" by (auto dest: flagsRegex_at_Some)
  with m flag_name_shape [of s w nm gs r] \<open>sub ! 1 = k\<close> show ?thesis by simp
qed


section \<open>Where the search arrives\<close>

text \<open>
  The search of \<open>ReplaceAllStringFunc\<close> goes through a text from left to right: where the
  pattern matches, it goes on behind the match; where it does not, it goes on behind the
  rune. \<open>search_reaches s n\<close> tells whether the search in \<open>s\<close> arrives at the position that
  has \<open>n\<close> bytes of \<open>s\<close> after it. It does unless a match that starts before this position
  ends after it (lemma \<open>reached_or_covered\<close>), so to say that the search reaches a token is
  to say that no earlier match reaches into the token.
\<close>

function search_reaches :: "string \<Rightarrow> nat \<Rightarrow> bool" where
  "search_reaches s n =
     (if length s \<le> n then length s = n
      else
        case flagsRegex_at s of
          Some (sub, r) \<Rightarrow> search_reaches r n
        | None \<Rightarrow> search_reaches (drop (rune_len s) s) n)"
  by pat_completeness auto
termination
proof (relation "measure (\<lambda>(s, n). length s)")
  show "wf (measure (\<lambda>(s, n). length s))" by simp
next
  fix s :: string and n :: nat and x2 :: "string list \<times> string" and sub r
  assume "flagsRegex_at s = Some x2" "(sub, r) = x2"
  then have "flagsRegex_at s = Some (sub, r)" by simp
  then have "length r < length s" by (auto dest!: flagsRegex_at_Some)
  then show "((r, n), (s, n)) \<in> measure (\<lambda>(s, n). length s)" by simp
next
  fix s :: string and n :: nat
  assume "\<not> length s \<le> n"
  then have "s \<noteq> []" by auto
  then have "0 < rune_len s" by (rule rune_len_pos)
  with \<open>s \<noteq> []\<close> show "((drop (rune_len s) s, n), (s, n)) \<in> measure (\<lambda>(s, n). length s)"
    by simp
qed

declare search_reaches.simps [simp del]

text \<open>The text outside the matches: the pieces before the matches and the piece after the
  last one. It is the output of the replacement with the closure, which returns the empty
  string for every match.\<close>

definition unmatched :: "string \<Rightarrow> string" where
  "unmatched src = concat (map fst (flag_matches src)) @ last_gap src"

lemma reaches_length: "search_reaches s n \<Longrightarrow> n \<le> length s"
  by (subst (asm) search_reaches.simps) (auto split: if_splits)

lemma reaches_self: "search_reaches s (length s)"
  by (subst search_reaches.simps) simp

lemma reaches_match:
  "flagsRegex_at s = Some (sub, r) \<Longrightarrow> n < length s \<Longrightarrow> search_reaches s n = search_reaches r n"
  by (subst search_reaches.simps) simp

lemma reaches_skip:
  "flagsRegex_at s = None \<Longrightarrow> n < length s \<Longrightarrow>
     search_reaches s n = search_reaches (drop (rune_len s) s) n"
  by (subst search_reaches.simps) simp

lemma matches_at_match:
  assumes "flagsRegex_at s = Some (sub, r)"
  shows "flag_matches s = ([], sub) # flag_matches r" "unmatched s = unmatched r"
  using assms
  by (simp_all add: unmatched_def flag_matches.simps [of s] last_gap.simps [of s]
      find_flag.simps [of s])

lemma matches_at_skip:
  assumes "flagsRegex_at s = None" "s \<noteq> []"
  shows "map snd (flag_matches s) = map snd (flag_matches (drop (rune_len s) s))"
    and "unmatched s = take (rune_len s) s @ unmatched (drop (rune_len s) s)"
proof -
  let ?t = "drop (rune_len s) s"
  have f: "find_flag s =
      map_option (\<lambda>(pre, sub, rest). (take (rune_len s) s @ pre, sub, rest)) (find_flag ?t)"
    using assms by (simp add: find_flag.simps [of s])
  show "map snd (flag_matches s) = map snd (flag_matches ?t)"
    by (cases "find_flag ?t")
      (auto simp: f flag_matches.simps [of s] flag_matches.simps [of ?t])
  show "unmatched s = take (rune_len s) s @ unmatched ?t"
    by (cases "find_flag ?t")
      (auto simp: f unmatched_def flag_matches.simps [of s] flag_matches.simps [of ?t]
        last_gap.simps [of s] last_gap.simps [of ?t])
qed

lemma Replace_unmatched:
  "ReplaceAllStringFunc flag_repl flags src =
     Inr (foldl store flags (map snd (flag_matches src)), unmatched src)"
  by (simp add: Replace_all_matches unmatched_def)

text \<open>A text whose second part the search reaches: the first part is matches and pieces
  between them, the matches of the text are those of the first part and then those of
  the second part, and so is the text outside the matches.\<close>

lemma append_suffix_split:
  assumes "pre @ s = w @ r" "length s \<le> length r"
  shows "\<exists>pre'. pre = w @ pre' \<and> r = pre' @ s"
proof -
  from assms have "length w \<le> length pre"
    by (metis add_le_cancel_right length_append nat_add_left_cancel_le add.commute)
  with assms(1) show ?thesis
    by (metis append_eq_append_conv_if append_take_drop_id)
qed

lemma search_split:
  "search_reaches (pre @ s) (length s) \<Longrightarrow>
     \<exists>ms g. pre = concat (map (\<lambda>(p, sub). p @ sub ! 0) ms) @ g \<and>
       map snd (flag_matches (pre @ s)) = map snd ms @ map snd (flag_matches s) \<and>
       unmatched (pre @ s) = concat (map fst ms) @ g @ unmatched s"
proof (induction pre rule: length_induct)
  case (1 pre)
  show ?case
  proof (cases "pre = []")
    case True
    then show ?thesis by (intro exI [of _ "[]"]) simp
  next
    case False
    then have lt: "length s < length (pre @ s)" by simp
    show ?thesis
    proof (cases "flagsRegex_at (pre @ s)")
      case (Some a)
      obtain sub r where a: "a = (sub, r)" by (cases a)
      with Some have m: "flagsRegex_at (pre @ s) = Some (sub, r)" by simp
      then obtain w where w: "sub ! 0 = w" "pre @ s = w @ r" "2 < length w"
        by (auto dest!: flagsRegex_at_Some)
      from "1.prems" m lt have reach: "search_reaches r (length s)"
        by (simp add: reaches_match)
      then have "length s \<le> length r" by (rule reaches_length)
      with w(2) obtain pre' where pre': "pre = w @ pre'" "r = pre' @ s"
        using append_suffix_split by blast
      with w(3) have "length pre' < length pre" by (cases w) auto
      with "1.IH" reach pre'(2) obtain ms g where
        ih: "pre' = concat (map (\<lambda>(p, sub). p @ sub ! 0) ms) @ g"
          "map snd (flag_matches (pre' @ s)) = map snd ms @ map snd (flag_matches s)"
          "unmatched (pre' @ s) = concat (map fst ms) @ g @ unmatched s"
        by blast
      let ?ms = "([], sub) # ms"
      have "pre = concat (map (\<lambda>(p, sub). p @ sub ! 0) ?ms) @ g"
        using pre'(1) ih(1) w(1) by simp
      moreover have "map snd (flag_matches (pre @ s)) = map snd ?ms @ map snd (flag_matches s)"
        using matches_at_match(1) [OF m] ih(2) pre'(2) by simp
      moreover have "unmatched (pre @ s) = concat (map fst ?ms) @ g @ unmatched s"
        using matches_at_match(2) [OF m] ih(3) pre'(2) by simp
      ultimately show ?thesis by blast
    next
      case None
      define w where "w = rune_len (pre @ s)"
      from "1.prems" None lt have reach: "search_reaches (drop w (pre @ s)) (length s)"
        by (simp add: reaches_skip w_def)
      then have "length s \<le> length (drop w (pre @ s))" by (rule reaches_length)
      then have "length s \<le> length pre + length s - w" by simp
      moreover have "w \<le> length pre + length s"
        using rune_len_le [of "pre @ s"] by (simp add: w_def)
      ultimately have wl: "w \<le> length pre" by arith
      have w0: "0 < w" using False rune_len_pos [of "pre @ s"] by (simp add: w_def)
      from wl have td: "take w (pre @ s) = take w pre" "drop w (pre @ s) = drop w pre @ s"
        by simp_all
      from w0 False have "length (drop w pre) < length pre" by simp
      with "1.IH" reach td(2) obtain ms g where
        ih: "drop w pre = concat (map (\<lambda>(p, sub). p @ sub ! 0) ms) @ g"
          "map snd (flag_matches (drop w pre @ s)) = map snd ms @ map snd (flag_matches s)"
          "unmatched (drop w pre @ s) = concat (map fst ms) @ g @ unmatched s"
        by metis
      have ne: "pre @ s \<noteq> []" using False by simp
      have m: "map snd (flag_matches (pre @ s)) = map snd ms @ map snd (flag_matches s)"
        using matches_at_skip(1) [OF None ne] ih(2) td(2) by (simp add: w_def)
      have u: "unmatched (pre @ s) = take w pre @ concat (map fst ms) @ g @ unmatched s"
        using matches_at_skip(2) [OF None ne] ih(3) td by (simp add: w_def)
      have p: "pre = take w pre @ concat (map (\<lambda>(p, sub). p @ sub ! 0) ms) @ g"
        using ih(1) by (metis append_take_drop_id)
      show ?thesis
      proof (cases ms)
        case Nil
        with m u p show ?thesis
          by (intro exI [of _ "[]"] exI [of _ "take w pre @ g"]) simp
      next
        case (Cons x xs)
        obtain p1 sub1 where x: "x = (p1, sub1)" by (cases x)
        let ?ms = "(take w pre @ p1, sub1) # xs"
        have "pre = concat (map (\<lambda>(p, sub). p @ sub ! 0) ?ms) @ g"
          using p Cons x by simp
        moreover have "map snd (flag_matches (pre @ s)) = map snd ?ms @ map snd (flag_matches s)"
          using m Cons x by simp
        moreover have "unmatched (pre @ s) = concat (map fst ?ms) @ g @ unmatched s"
          using u Cons x by simp
        ultimately show ?thesis by blast
      qed
    qed
  qed
qed

text \<open>The search reaches a position at the start of a rune, or a match found before
  starts before the position and ends after it.\<close>

lemma reached_or_covered:
  assumes "s = [] \<or> \<not> cont (hd s)"
  shows "search_reaches (pre @ s) (length s) \<or>
    (\<exists>p sub r. search_reaches (pre @ s) (length (sub ! 0 @ r)) \<and> pre @ s = p @ sub ! 0 @ r \<and>
       flagsRegex_at (sub ! 0 @ r) = Some (sub, r) \<and>
       length p < length pre \<and> length pre < length p + length (sub ! 0))"
proof (induction pre rule: length_induct)
  case (1 pre)
  let ?covered = "\<lambda>pre. \<exists>p sub r. search_reaches (pre @ s) (length (sub ! 0 @ r)) \<and>
       pre @ s = p @ sub ! 0 @ r \<and> flagsRegex_at (sub ! 0 @ r) = Some (sub, r) \<and>
       length p < length pre \<and> length pre < length p + length (sub ! 0)"
  show ?case
  proof (cases "pre = []")
    case True
    then show ?thesis by (simp add: reaches_self)
  next
    case False
    then have lt: "length s < length (pre @ s)" by simp
    show ?thesis
    proof (cases "flagsRegex_at (pre @ s)")
      case (Some a)
      obtain sub r where a: "a = (sub, r)" by (cases a)
      with Some have m: "flagsRegex_at (pre @ s) = Some (sub, r)" by simp
      then obtain w where w: "sub ! 0 = w" "pre @ s = w @ r" "2 < length w"
        by (auto dest!: flagsRegex_at_Some)
      show ?thesis
      proof (cases "length w \<le> length pre")
        case True
        with w(2) have "length s \<le> length r"
          by (metis add_le_cancel_left length_append add.commute le_trans nat_le_linear
              add_le_mono order_refl)
        with w(2) obtain pre' where pre': "pre = w @ pre'" "r = pre' @ s"
          using append_suffix_split by blast
        with w(3) have sh: "length pre' < length pre" by (cases w) auto
        with "1.IH" have "search_reaches (pre' @ s) (length s) \<or> ?covered pre'" by blast
        then show ?thesis
        proof
          assume "search_reaches (pre' @ s) (length s)"
          with m lt pre'(2) show ?thesis by (simp add: reaches_match)
        next
          assume "?covered pre'"
          then obtain p sub' r' where c:
            "search_reaches (pre' @ s) (length (sub' ! 0 @ r'))" "pre' @ s = p @ sub' ! 0 @ r'"
            "flagsRegex_at (sub' ! 0 @ r') = Some (sub', r')"
            "length p < length pre'" "length pre' < length p + length (sub' ! 0)"
            by blast
          have "length (sub' ! 0 @ r') < length (pre @ s)"
            using c(2) pre'(1) w(3) by (metis append.assoc length_append less_add_same_cancel2
                add.commute add_lessD1 length_greater_0_conv list.size(3) not_less_zero
                trans_less_add2 zero_less_iff_neq_zero)
          with m c(1) pre'(2) have "search_reaches (pre @ s) (length (sub' ! 0 @ r'))"
            by (simp add: reaches_match)
          moreover have "pre @ s = (w @ p) @ sub' ! 0 @ r'"
            using c(2) pre'(1) by simp
          moreover have "length (w @ p) < length pre" "length pre < length (w @ p) + length (sub' ! 0)"
            using c(4,5) pre'(1) by simp_all
          ultimately have "?covered pre" using c(3) by blast
          then show ?thesis by blast
        qed
      next
        case long: False
        have "search_reaches (pre @ s) (length (sub ! 0 @ r))"
          using w by (simp add: reaches_self [of "w @ r", simplified])
        moreover have "pre @ s = [] @ sub ! 0 @ r" using w by simp
        moreover have "flagsRegex_at (sub ! 0 @ r) = Some (sub, r)" using m w by simp
        moreover have "length ([] :: string) < length pre" using False by simp
        moreover have "length pre < length ([] :: string) + length (sub ! 0)" using long w by simp
        ultimately have "?covered pre" by blast
        then show ?thesis by blast
      qed
    next
      case None
      define w where "w = rune_len (pre @ s)"
      have wl: "w \<le> length pre"
        using rune_len_append [OF False assms] by (simp add: w_def)
      have w0: "0 < w" using False rune_len_pos [of "pre @ s"] by (simp add: w_def)
      from wl have td: "drop w (pre @ s) = drop w pre @ s" by simp
      from w0 False have sh: "length (drop w pre) < length pre" by simp
      with "1.IH" have "search_reaches (drop w pre @ s) (length s) \<or> ?covered (drop w pre)"
        by blast
      then show ?thesis
      proof
        assume "search_reaches (drop w pre @ s) (length s)"
        with None lt td show ?thesis by (simp add: reaches_skip w_def)
      next
        assume "?covered (drop w pre)"
        then obtain p sub' r' where c:
          "search_reaches (drop w pre @ s) (length (sub' ! 0 @ r'))"
          "drop w pre @ s = p @ sub' ! 0 @ r'"
          "flagsRegex_at (sub' ! 0 @ r') = Some (sub', r')"
          "length p < length (drop w pre)" "length (drop w pre) < length p + length (sub' ! 0)"
          by blast
        have eq: "pre @ s = (take w pre @ p) @ sub' ! 0 @ r'"
          using c(2) by (metis append.assoc append_take_drop_id)
        have "length (take w pre @ p) + length (sub' ! 0 @ r') = length (pre @ s)"
          using eq by (metis length_append)
        with w0 wl have "length (sub' ! 0 @ r') < length (pre @ s)" by simp
        with None c(1) td have "search_reaches (pre @ s) (length (sub' ! 0 @ r'))"
          by (simp add: reaches_skip w_def)
        moreover have "length (take w pre @ p) < length pre"
          "length pre < length (take w pre @ p) + length (sub' ! 0)"
          using c(4,5) wl by simp_all
        ultimately have "?covered pre" using c(3) eq by blast
        then show ?thesis by blast
      qed
    qed
  qed
qed

lemma reached_match:
  assumes "search_reaches (pre @ s) (length s)" and "flagsRegex_at s = Some (sub, r)"
  shows "\<exists>before. map snd (flag_matches (pre @ s)) = before @ sub # map snd (flag_matches r)"
proof -
  from search_split [OF assms(1)] obtain ms :: "(string \<times> string list) list" where
    "map snd (flag_matches (pre @ s)) = map snd ms @ map snd (flag_matches s)"
    by blast
  with matches_at_match(1) [OF assms(2)] show ?thesis by auto
qed

lemma match_of_text:
  assumes "map snd (flag_matches src) = before @ sub # after"
  shows "\<exists>s r. flagsRegex_at s = Some (sub, r)"
proof -
  from assms have "sub \<in> set (map snd (flag_matches src))" by simp
  then obtain pre where "(pre, sub) \<in> set (flag_matches src)" by auto
  then show ?thesis by (rule matches_are_matches)
qed

lemma token_reached_or_covered:
  assumes "intro = ''--'' \<or> intro = em_dash"
  shows "search_reaches (pre @ intro @ s) (length (intro @ s)) \<or>
    (\<exists>p sub r. search_reaches (pre @ intro @ s) (length (sub ! 0 @ r)) \<and>
       pre @ intro @ s = p @ sub ! 0 @ r \<and> flagsRegex_at (sub ! 0 @ r) = Some (sub, r) \<and>
       length p < length pre \<and> length pre < length p + length (sub ! 0))"
  using reached_or_covered [of "intro @ s" pre] hd_intro_not_cont [OF assms, of s] by simp


section \<open>Flags without a value\<close>

lemma bare_token_is_match:
  assumes "intro = ''--'' \<or> intro = em_dash"
    and "is_word c" "cs \<noteq> []" "list_all is_word_hyphen cs"
    and "post = [] \<or> \<not> is_word_hyphen (hd post)" and "flag_value post = None"
    and "search_reaches (pre @ intro @ c # cs @ post) (length (intro @ c # cs @ post))"
  shows "\<exists>before. map snd (flag_matches (pre @ intro @ c # cs @ post)) =
    before @ [intro @ c # cs, c # cs, [], [], [], [], []] # map snd (flag_matches post)"
  using reached_match [OF assms(7) bare_token_match [OF assms(1-6)]] .

text \<open>
  C6: a flag without a value part maps the flag's name to itself. For every text and every
  match of the pattern in it whose five value groups are empty, the closure stores the
  name under the name and returns the empty string; the flag map after the whole
  replacement is the fold over the matches with this entry in its place; and where no
  later match has the same name, the flag map of the text has the name under the name.
  A flag token with no \<open>=value\<close> part is such a match wherever the search reaches it, after
  flags with values and after hyphenated words as well (lemma \<open>bare_token_is_match\<close>). The
  witness has the texts \<open>!cmd --num=5 --verbose\<close> and \<open>!say well-known --verbose= x\<close>.
\<close>

theorem boolean_flag:
  assumes "map snd (flag_matches src) = before @ sub # after"
    and "drop 2 sub = [[], [], [], [], []]"
  shows "flag_repl flags (sub ! 0) = Inr (flags(sub ! 1 \<mapsto> sub ! 1), []) \<and>
         ReplaceAllStringFunc flag_repl flags src =
           Inr (foldl store ((foldl store flags before)(sub ! 1 \<mapsto> sub ! 1)) after,
                unmatched src) \<and>
         (list_all (\<lambda>m. m ! 1 \<noteq> sub ! 1) after \<longrightarrow>
            (\<exists>fl content. parse_flags src = Inr (fl, content) \<and> fl (sub ! 1) = Some (sub ! 1)))"
proof -
  have sv: "stored_value sub = sub ! 1"
    by (simp add: stored_value_def assms(2))
  from match_of_text [OF assms(1)] obtain s r where "flagsRegex_at s = Some (sub, r)"
    by blast
  then have 1: "flag_repl flags (sub ! 0) = Inr (flags(sub ! 1 \<mapsto> sub ! 1), [])"
    using flag_repl_match [of s sub r flags] sv by simp
  have 2: "ReplaceAllStringFunc flag_repl flags src =
      Inr (foldl store ((foldl store flags before)(sub ! 1 \<mapsto> sub ! 1)) after, unmatched src)"
    unfolding Replace_unmatched assms(1) by (simp add: store_def sv)
  have 3: "\<exists>fl content. parse_flags src = Inr (fl, content) \<and> fl (sub ! 1) = Some (sub ! 1)"
    if "list_all (\<lambda>m. m ! 1 \<noteq> sub ! 1) after"
  proof -
    have "foldl store Map.empty (before @ sub # after) (sub ! 1) = Some (stored_value sub)"
      using that by (rule store_last)
    then show ?thesis
      by (simp add: parse_flags_def Replace_unmatched assms(1) sv)
  qed
  from 1 2 3 show ?thesis by blast
qed

definition after_value :: string where
  "after_value = ''!cmd --num=5 --verbose''"

definition before_equals :: string where
  "before_equals = ''!say well-known --verbose= x''"

lemma after_value_matches:
  "map snd (flag_matches after_value) =
     [[''--num=5'', ''num'', [], [], [], [], ''5'']] @ [''--verbose'', ''verbose'', [], [], [], [], []] # []"
  "unmatched after_value = ''!cmd  ''"
  by (simp_all add: after_value_def unmatched_def flag_matches.simps last_gap.simps matcher_eval)

lemma before_equals_matches:
  "map snd (flag_matches before_equals) =
     [] @ [''--verbose'', ''verbose'', [], [], [], [], []] # []"
  "unmatched before_equals = ''!say well-known = x''"
  by (simp_all add: before_equals_def unmatched_def flag_matches.simps last_gap.simps matcher_eval)

theorem boolean_flag_witness:
  "parse_flags ''!cmd --num=5 --verbose'' =
     Inr ([''num'' \<mapsto> ''5'', ''verbose'' \<mapsto> ''verbose''], ''!cmd'') \<and>
   parse_flags ''!say well-known --verbose= x'' =
     Inr ([''verbose'' \<mapsto> ''verbose''], ''!say well-known = x'')"
proof -
  have g: "drop 2 [''--verbose'', ''verbose'', [], [], [], [], []] = [[], [], [], [], []]"
    by simp
  from boolean_flag [OF after_value_matches(1) g, of Map.empty]
  have "ReplaceAllStringFunc flag_repl Map.empty after_value =
      Inr ([''num'' \<mapsto> ''5'', ''verbose'' \<mapsto> ''verbose''], ''!cmd  '')"
    by (simp add: store_def stored_value_def after_value_matches(2))
  then have 1: "parse_flags after_value =
      Inr ([''num'' \<mapsto> ''5'', ''verbose'' \<mapsto> ''verbose''], ''!cmd'')"
    by (simp add: parse_flags_def delim_collapse Trim_def is_space_def byte_def)
  from boolean_flag [OF before_equals_matches(1) g, of Map.empty]
  have "ReplaceAllStringFunc flag_repl Map.empty before_equals =
      Inr ([''verbose'' \<mapsto> ''verbose''], ''!say well-known = x'')"
    by (simp add: before_equals_matches(2))
  then have 2: "parse_flags before_equals = Inr ([''verbose'' \<mapsto> ''verbose''], ''!say well-known = x'')"
    by (simp add: parse_flags_def delim_collapse Trim_def is_space_def byte_def)
  from 1 2 show ?thesis by (simp add: after_value_def before_equals_def)
qed


section \<open>A quoted value with escaped quotes\<close>

lemma msg_flag_is_match:
  assumes "search_reaches (pre @ msg_flag @ post) (length (msg_flag @ post))"
  shows "\<exists>before. map snd (flag_matches (pre @ msg_flag @ post)) =
    before @ [msg_flag, ''msg'', msg_value, [], [], [], []] # map snd (flag_matches post)"
  using reached_match [OF assms msg_flag_match] .

lemma msg_match_stored:
  assumes "map snd (flag_matches src) = before @ sub # after"
    and "sub ! 0 = msg_flag"
  shows "sub = [msg_flag, ''msg'', msg_value, [], [], [], []] \<and>
         flag_repl flags msg_flag = Inr (flags(''msg'' \<mapsto> msg_value), []) \<and>
         ReplaceAllStringFunc flag_repl flags src =
           Inr (foldl store ((foldl store flags before)(''msg'' \<mapsto> msg_value)) after,
                unmatched src) \<and>
         src = concat (map (\<lambda>(pre, sub). pre @ sub ! 0) (flag_matches src)) @ last_gap src \<and>
         (list_all (\<lambda>m. m ! 1 \<noteq> ''msg'') after \<longrightarrow>
            (\<exists>fl content. parse_flags src = Inr (fl, content) \<and> fl ''msg'' = Some msg_value))"
proof -
  from match_of_text [OF assms(1)] obtain s r where "flagsRegex_at s = Some (sub, r)"
    by blast
  then have "flagsRegex_at (sub ! 0) = Some (sub, [])" by (rule rematch)
  with msg_flag_match [of "[]"] assms(2)
  have sub: "sub = [msg_flag, ''msg'', msg_value, [], [], [], []]" by simp
  have "msg_value \<noteq> []" by (simp add: msg_value_def)
  then have sv: "stored_value sub = msg_value" "sub ! 1 = ''msg''" "sub ! Suc 0 = ''msg''"
    by (simp_all add: stored_value_def sub)
  have 1: "flag_repl flags msg_flag = Inr (flags(''msg'' \<mapsto> msg_value), [])"
    by (rule msg_flag_repl)
  have 2: "ReplaceAllStringFunc flag_repl flags src =
      Inr (foldl store ((foldl store flags before)(''msg'' \<mapsto> msg_value)) after, unmatched src)"
    unfolding Replace_unmatched assms(1) by (simp add: store_def sv)
  have 3: "src = concat (map (\<lambda>(pre, sub). pre @ sub ! 0) (flag_matches src)) @ last_gap src"
    by (simp add: matches_text)
  have 4: "\<exists>fl content. parse_flags src = Inr (fl, content) \<and> fl ''msg'' = Some msg_value"
    if "list_all (\<lambda>m. m ! 1 \<noteq> ''msg'') after"
  proof -
    from that have "list_all (\<lambda>m. m ! 1 \<noteq> sub ! 1) after" by (simp add: sv)
    then have "foldl store Map.empty (before @ sub # after) (sub ! 1) = Some (stored_value sub)"
      by (rule store_last)
    then show ?thesis
      by (simp add: parse_flags_def Replace_unmatched assms(1) sv)
  qed
  from sub 1 2 3 4 show ?thesis by blast
qed

text \<open>
  C5: in a text that has the flag \<open>--msg="he said \"hi\""\<close> at a place the search reaches
  (no earlier match reaches into the flag, lemma \<open>token_reached_or_covered\<close>), whatever
  stands before and after it, the whole flag is one match and its first group is the text
  between the outer quotes. The closure
  stores under \<open>msg\<close> this text as it stands, backslashes included, and returns the empty
  string, so the flag is gone from the output: the output is what the replacement leaves
  of the text before the flag and then what it leaves of the text after it. Where no
  later match has the name \<open>msg\<close>, the flag map of the text has the captured text under
  \<open>msg\<close>. The witness is the text \<open>!cmd --num=5 --msg="he said \"hi\"" now\<close>.
\<close>

theorem escaped_quote_value:
  assumes "search_reaches (pre @ msg_flag @ post) (length (msg_flag @ post))"
  shows "flagsRegex_at (msg_flag @ post) =
           Some ([msg_flag, ''msg'', msg_value, [], [], [], []], post) \<and>
         flag_repl flags msg_flag = Inr (flags(''msg'' \<mapsto> msg_value), []) \<and>
         (\<exists>ms g. pre = concat (map (\<lambda>(p, sub). p @ sub ! 0) ms) @ g \<and>
            map snd (flag_matches (pre @ msg_flag @ post)) =
              map snd ms @ [msg_flag, ''msg'', msg_value, [], [], [], []] #
                map snd (flag_matches post) \<and>
            ReplaceAllStringFunc flag_repl flags (pre @ msg_flag @ post) =
              copied (concat (map fst ms) @ g)
                (ReplaceAllStringFunc flag_repl
                  ((foldl store flags (map snd ms))(''msg'' \<mapsto> msg_value)) post)) \<and>
         (list_all (\<lambda>m. m ! 1 \<noteq> ''msg'') (map snd (flag_matches post)) \<longrightarrow>
            (\<exists>fl content. parse_flags (pre @ msg_flag @ post) = Inr (fl, content) \<and>
               fl ''msg'' = Some msg_value))"
proof -
  let ?sub = "[msg_flag, ''msg'', msg_value, [], [], [], []]"
  have "msg_value \<noteq> []" by (simp add: msg_value_def)
  then have sv: "stored_value ?sub = msg_value"
    by (simp add: stored_value_def)
  note m = matches_at_match [OF msg_flag_match [of post]]
  from search_split [OF assms] obtain ms g where
    s: "pre = concat (map (\<lambda>(p, sub). p @ sub ! 0) ms) @ g"
      "map snd (flag_matches (pre @ msg_flag @ post)) =
         map snd ms @ map snd (flag_matches (msg_flag @ post))"
      "unmatched (pre @ msg_flag @ post) =
         concat (map fst ms) @ g @ unmatched (msg_flag @ post)"
    by blast
  have ml: "map snd (flag_matches (pre @ msg_flag @ post)) =
      map snd ms @ ?sub # map snd (flag_matches post)"
    using s(2) m(1) by simp
  have r: "ReplaceAllStringFunc flag_repl flags (pre @ msg_flag @ post) =
      copied (concat (map fst ms) @ g)
        (ReplaceAllStringFunc flag_repl
          ((foldl store flags (map snd ms))(''msg'' \<mapsto> msg_value)) post)"
    by (simp add: Replace_unmatched ml s(3) m(2) store_def sv)
  have 3: "\<exists>ms g. pre = concat (map (\<lambda>(p, sub). p @ sub ! 0) ms) @ g \<and>
      map snd (flag_matches (pre @ msg_flag @ post)) =
        map snd ms @ ?sub # map snd (flag_matches post) \<and>
      ReplaceAllStringFunc flag_repl flags (pre @ msg_flag @ post) =
        copied (concat (map fst ms) @ g)
          (ReplaceAllStringFunc flag_repl
            ((foldl store flags (map snd ms))(''msg'' \<mapsto> msg_value)) post)"
    using s(1) ml r by blast
  have 4: "\<exists>fl content. parse_flags (pre @ msg_flag @ post) = Inr (fl, content) \<and>
      fl ''msg'' = Some msg_value"
    if "list_all (\<lambda>m. m ! 1 \<noteq> ''msg'') (map snd (flag_matches post))"
  proof -
    from that have "list_all (\<lambda>m. m ! 1 \<noteq> ?sub ! 1) (map snd (flag_matches post))" by simp
    then have "foldl store Map.empty (map snd ms @ ?sub # map snd (flag_matches post)) (?sub ! 1) =
        Some (stored_value ?sub)"
      by (rule store_last)
    then have "foldl store Map.empty (map snd ms @ ?sub # map snd (flag_matches post)) ''msg'' =
        Some msg_value"
      unfolding sv by simp
    then show ?thesis
      unfolding parse_flags_def Replace_unmatched ml by simp
  qed
  from msg_flag_match [of post] msg_flag_repl [of flags] 3 4 show ?thesis by blast
qed

theorem escaped_quote_value_witness:
  "search_reaches (''!cmd --num=5 '' @ msg_flag @ '' now'') (length (msg_flag @ '' now'')) \<and>
   list_all (\<lambda>m. m ! 1 \<noteq> ''msg'') (map snd (flag_matches '' now'')) \<and>
   (\<exists>fl content. parse_flags (''!cmd --num=5 '' @ msg_flag @ '' now'') = Inr (fl, content) \<and>
      fl ''msg'' = Some msg_value) \<and>
   parse_flags (''!cmd --num=5 '' @ msg_flag @ '' now'') =
     Inr ([''num'' \<mapsto> ''5'', ''msg'' \<mapsto> msg_value], ''!cmd now'') \<and>
   length msg_value = 14 \<and> msg_value ! 8 = backslash \<and> msg_value ! 9 = dquote"
proof -
  have r: "search_reaches (''!cmd --num=5 '' @ msg_flag @ '' now'') (length (msg_flag @ '' now''))"
    by (simp add: search_reaches.simps msg_flag_def msg_value_def matcher_eval)
  have l: "list_all (\<lambda>m. m ! 1 \<noteq> ''msg'') (map snd (flag_matches '' now''))"
    by (simp add: flag_matches.simps matcher_eval)
  have p: "parse_flags (''!cmd --num=5 '' @ msg_flag @ '' now'') =
      Inr ([''num'' \<mapsto> ''5'', ''msg'' \<mapsto> msg_value], ''!cmd now'')"
    by (simp add: msg_flag_def msg_value_def matcher_eval)
  have v: "length msg_value = 14 \<and> msg_value ! 8 = backslash \<and> msg_value ! 9 = dquote"
    by (simp add: msg_value_def)
  from escaped_quote_value [OF r, of Map.empty] l
  have "\<exists>fl content. parse_flags (''!cmd --num=5 '' @ msg_flag @ '' now'') = Inr (fl, content) \<and>
      fl ''msg'' = Some msg_value"
    by blast
  with r l p v show ?thesis by blast
qed


section \<open>Names of a single character\<close>

lemma short_token_matches:
  assumes "intro = ''--'' \<or> intro = em_dash" and "is_word c"
    and "post = [] \<or> \<not> is_word_hyphen (hd post)"
  shows "map snd (flag_matches (intro @ c # post)) = map snd (flag_matches post)"
    and "unmatched (intro @ c # post) = intro @ c # unmatched post"
proof -
  note c = is_word_ascii [OF assms(2)]
  have nc: "flagsRegex_at (c # post) = None"
    using c by (simp add: flagsRegex_at_None)
  have rc: "rune_len (c # post) = 1" using c by (simp add: rune_len_ascii)
  have last: "map snd (flag_matches (c # post)) = map snd (flag_matches post)"
    "unmatched (c # post) = c # unmatched post"
    using matches_at_skip [OF nc] rc by simp_all
  have "map snd (flag_matches (intro @ c # post)) = map snd (flag_matches post) \<and>
      unmatched (intro @ c # post) = intro @ c # unmatched post"
    using assms(1)
  proof
    assume i: "intro = ''--''"
    have n1: "flagsRegex_at (CHR ''-'' # c # post) = None"
      using c by (simp add: flagsRegex_at_def introducer_def lit_def HasPrefix_def em_dash_def)
    have r1: "rune_len (CHR ''-'' # c # post) = 1" by (simp add: rune_len_ascii byte_def)
    have n2: "flagsRegex_at (CHR ''-'' # CHR ''-'' # c # post) = None"
      using short_token_no_match [OF assms(1,3), of c] i by simp
    have r2: "rune_len (CHR ''-'' # CHR ''-'' # c # post) = 1" by (simp add: rune_len_ascii byte_def)
    from matches_at_skip [OF n1] r1 last
    have s1: "map snd (flag_matches (CHR ''-'' # c # post)) = map snd (flag_matches post)"
      "unmatched (CHR ''-'' # c # post) = CHR ''-'' # c # unmatched post"
      by simp_all
    from matches_at_skip [OF n2] r2 s1 show ?thesis by (simp add: i)
  next
    assume i: "intro = em_dash"
    have n: "flagsRegex_at (em_dash @ c # post) = None"
      using short_token_no_match [OF assms(1,3), of c] i by simp
    have r: "rune_len (em_dash @ c # post) = 3"
      by (simp add: em_dash_def rune_len_def rune_size_def byte_def accept_lo_def accept_hi_def
          cont_def Let_def)
    have ne: "em_dash @ c # post \<noteq> []" by simp
    from matches_at_skip [OF n ne] r last show ?thesis by (simp add: i em_dash_def)
  qed
  then show "map snd (flag_matches (intro @ c # post)) = map snd (flag_matches post)"
    and "unmatched (intro @ c # post) = intro @ c # unmatched post"
    by simp_all
qed

text \<open>
  C10: extraction recognizes only names of at least two characters. For every text, every
  key of its flag map has at least two characters. A token made of an introducer and a
  single word character, at the end of the text or before a character that is neither a
  word character nor a hyphen, at a place the search reaches (no earlier match reaches
  into the token, lemma \<open>token_reached_or_covered\<close>), is no match: the matches of the text are those before the token and
  those after it, so the token creates no entry of the flag map, and the token is copied
  to the output as it is, between what the replacement leaves of the text before it and
  of the text after it. The witness is the text \<open>!cmd --num=5 --v arg\<close>.
\<close>

theorem single_character_name:
  assumes "intro = ''--'' \<or> intro = em_dash" and "is_word c"
    and "post = [] \<or> \<not> is_word_hyphen (hd post)"
    and "search_reaches (pre @ intro @ c # post) (length (intro @ c # post))"
  shows "(\<forall>src flags' content k v.
            parse_flags src = Inr (flags', content) \<longrightarrow> flags' k = Some v \<longrightarrow> 2 \<le> length k) \<and>
         (\<exists>ms g. pre = concat (map (\<lambda>(p, sub). p @ sub ! 0) ms) @ g \<and>
            map snd (flag_matches (pre @ intro @ c # post)) =
              map snd ms @ map snd (flag_matches post) \<and>
            ReplaceAllStringFunc flag_repl flags (pre @ intro @ c # post) =
              copied (concat (map fst ms) @ g @ intro @ [c])
                (ReplaceAllStringFunc flag_repl (foldl store flags (map snd ms)) post))"
proof -
  from search_split [OF assms(4)] obtain ms g where
    s: "pre = concat (map (\<lambda>(p, sub). p @ sub ! 0) ms) @ g"
      "map snd (flag_matches (pre @ intro @ c # post)) =
         map snd ms @ map snd (flag_matches (intro @ c # post))"
      "unmatched (pre @ intro @ c # post) =
         concat (map fst ms) @ g @ unmatched (intro @ c # post)"
    by blast
  note t = short_token_matches [OF assms(1-3)]
  have "ReplaceAllStringFunc flag_repl flags (pre @ intro @ c # post) =
      copied (concat (map fst ms) @ g @ intro @ [c])
        (ReplaceAllStringFunc flag_repl (foldl store flags (map snd ms)) post)"
    by (simp add: Replace_unmatched s(2,3) t)
  with s(1,2) t(1) have "\<exists>ms g. pre = concat (map (\<lambda>(p, sub). p @ sub ! 0) ms) @ g \<and>
      map snd (flag_matches (pre @ intro @ c # post)) = map snd ms @ map snd (flag_matches post) \<and>
      ReplaceAllStringFunc flag_repl flags (pre @ intro @ c # post) =
        copied (concat (map fst ms) @ g @ intro @ [c])
          (ReplaceAllStringFunc flag_repl (foldl store flags (map snd ms)) post)"
    by auto
  moreover have "\<forall>src flags' content k v.
      parse_flags src = Inr (flags', content) \<longrightarrow> flags' k = Some v \<longrightarrow> 2 \<le> length k"
    using flag_keys_long by blast
  ultimately show ?thesis by blast
qed

theorem single_character_name_witness:
  "is_word CHR ''v'' \<and> \<not> is_word_hyphen (hd '' arg'') \<and>
   search_reaches (''!cmd --num=5 '' @ ''--'' @ CHR ''v'' # '' arg'')
     (length (''--'' @ CHR ''v'' # '' arg'')) \<and>
   (\<exists>ms g. ''!cmd --num=5 '' = concat (map (\<lambda>(p, sub). p @ sub ! 0) ms) @ g \<and>
      map snd (flag_matches ''!cmd --num=5 --v arg'') = map snd ms @ map snd (flag_matches '' arg'') \<and>
      ReplaceAllStringFunc flag_repl Map.empty ''!cmd --num=5 --v arg'' =
        copied (concat (map fst ms) @ g @ ''--v'')
          (ReplaceAllStringFunc flag_repl (foldl store Map.empty (map snd ms)) '' arg'')) \<and>
   parse_flags ''!cmd --num=5 --v arg'' = Inr ([''num'' \<mapsto> ''5''], ''!cmd --v arg'')"
proof -
  have w: "is_word CHR ''v''" and n: "\<not> is_word_hyphen (hd '' arg'')"
    by (simp_all add: is_word_hyphen_def is_word_def byte_def)
  have r: "search_reaches (''!cmd --num=5 '' @ ''--'' @ CHR ''v'' # '' arg'')
      (length (''--'' @ CHR ''v'' # '' arg''))"
    by (simp add: search_reaches.simps matcher_eval)
  have p: "parse_flags ''!cmd --num=5 --v arg'' = Inr ([''num'' \<mapsto> ''5''], ''!cmd --v arg'')"
    by (simp add: matcher_eval)
  from single_character_name [of "''--''" "CHR ''v''" "'' arg''" "''!cmd --num=5 ''" Map.empty] w n r
  have "\<exists>ms g. ''!cmd --num=5 '' = concat (map (\<lambda>(p, sub). p @ sub ! 0) ms) @ g \<and>
      map snd (flag_matches ''!cmd --num=5 --v arg'') = map snd ms @ map snd (flag_matches '' arg'') \<and>
      ReplaceAllStringFunc flag_repl Map.empty ''!cmd --num=5 --v arg'' =
        copied (concat (map fst ms) @ g @ ''--v'')
          (ReplaceAllStringFunc flag_repl (foldl store Map.empty (map snd ms)) '' arg'')"
    by simp
  with w n r p show ?thesis by blast
qed

end
